theory Spec2Isabelle
  imports Complex_Main "HOL-Library.AList" "HOL-Library.Sublist" "HOL-Library.Multiset"
begin

section \<open>Data model of indexer.py\<close>

text \<open>
  The development embeds \<^verbatim>\<open>indexer.py\<close>: the index builder \<^verbatim>\<open>build_index\<close> and the two
  scorers \<^verbatim>\<open>bm25_ranking\<close> and \<^verbatim>\<open>ql_ranking\<close>. Python's \<^verbatim>\<open>float\<close> is idealised as
  \<^typ>\<open>real\<close> (no rounding, no overflow); Python's unbounded non-negative integers are
  \<^typ>\<open>nat\<close>. A \<^verbatim>\<open>dict\<close> is an association list in insertion order with distinct keys,
  updated with \<^const>\<open>AList.update\<close> (an existing key keeps its place, a new key goes to
  the end), which is the order in which Python iterates a dictionary.
\<close>

datatype py_error = ZeroDivisionError | ValueError | KeyError

text \<open>The class \<^verbatim>\<open>Posting\<close> with the six attributes its constructor sets.\<close>

record posting =
  doc_id :: string
  positions :: "nat list"
  termCount :: nat
  docLen :: nat
  score :: real
  N :: nat

text \<open>A document of the corpus: the two keys \<^verbatim>\<open>doc["sceneId"]\<close> and \<^verbatim>\<open>doc["text"]\<close>.\<close>

record doc =
  sceneId :: string
  "text" :: string

type_synonym index = "(string \<times> posting list) list"

text \<open>
  The \<^verbatim>\<open>Posting\<close> objects are created by \<^verbatim>\<open>build_index\<close>, one per slot of a posting list,
  and are shared between the index and the result list of a scorer. A reference to such
  an object is the slot that holds it: the term and the position in \<^verbatim>\<open>index[term]\<close>.
\<close>

type_synonym ref = "string \<times> nat"

text \<open>A \<^verbatim>\<open>collections.Counter\<close>, and the plain dictionary \<^verbatim>\<open>cqi\<close>.\<close>

type_synonym counter = "(string \<times> nat) list"

subsection \<open>Dictionary operations\<close>

text \<open>
  \<^verbatim>\<open>index[term]\<close> on a \<^verbatim>\<open>defaultdict(list)\<close>: the value read is the stored list, or the
  empty list for a missing key (\<open>getitem\<close>); as a side effect the missing key is
  inserted with a fresh empty list (\<open>touch\<close>).
\<close>

definition getitem :: "('k \<times> 'v list) list \<Rightarrow> 'k \<Rightarrow> 'v list" where
  "getitem d k = (case map_of d k of None \<Rightarrow> [] | Some vs \<Rightarrow> vs)"

definition touch :: "'k \<Rightarrow> ('k \<times> 'v list) list \<Rightarrow> ('k \<times> 'v list) list" where
  "touch k d = (case map_of d k of None \<Rightarrow> d @ [(k, [])] | Some vs \<Rightarrow> d)"

text \<open>\<^verbatim>\<open>d[k].append(v)\<close> on a \<^verbatim>\<open>defaultdict(list)\<close>.\<close>

definition append_at :: "'k \<Rightarrow> 'v \<Rightarrow> ('k \<times> 'v list) list \<Rightarrow> ('k \<times> 'v list) list" where
  "append_at k v d = AList.update k (getitem d k @ [v]) d"

text \<open>\<^verbatim>\<open>queryTerms[term]\<close> on a \<^verbatim>\<open>Counter\<close>: a missing key counts 0 and is not inserted.\<close>

definition counter_get :: "counter \<Rightarrow> string \<Rightarrow> nat" where
  "counter_get c k = (case map_of c k of None \<Rightarrow> 0 | Some n \<Rightarrow> n)"

text \<open>\<^verbatim>\<open>collections.Counter(row[3:])\<close> in \<^verbatim>\<open>main\<close>: one key per distinct term, in order of
  first occurrence, with the number of occurrences.\<close>

definition Counter :: "string list \<Rightarrow> counter" where
  "Counter xs = fold (\<lambda>x c. AList.update x (counter_get c x + 1) c) xs []"

text \<open>Reading and writing the object behind a reference.\<close>

definition deref :: "index \<Rightarrow> ref \<Rightarrow> posting" where
  "deref index r = getitem index (fst r) ! snd r"

definition set_score :: "ref \<Rightarrow> real \<Rightarrow> index \<Rightarrow> index" where
  "set_score r s index =
     AList.update (fst r) ((getitem index (fst r))[snd r := (deref index r)\<lparr>score := s\<rparr>]) index"

text \<open>A \<^verbatim>\<open>for\<close> loop whose body may raise: the first exception ends the loop.\<close>

fun for_each :: "('a \<Rightarrow> 's \<Rightarrow> py_error + 's) \<Rightarrow> 'a list \<Rightarrow> 's \<Rightarrow> py_error + 's" where
  "for_each body [] s = Inr s"
| "for_each body (x # xs) s =
     (case body x s of Inl e \<Rightarrow> Inl e | Inr s' \<Rightarrow> for_each body xs s')"

section \<open>The tokenizer: \<^verbatim>\<open>str.split()\<close>\<close>

text \<open>
  \<^verbatim>\<open>str.split()\<close> without arguments cuts at runs of whitespace and yields no empty token.
  A \<^typ>\<open>char\<close> stands for a code point below 256; the whitespace code points there are
  9 to 13, 28 to 32, 133 and 160.
\<close>

definition is_space :: "char \<Rightarrow> bool" where
  "is_space c = (of_char c \<in> {9, 10, 11, 12, 13, 28, 29, 30, 31, 32, 133, 160 :: nat})"

fun split_from :: "string \<Rightarrow> string \<Rightarrow> string list" where
  "split_from cur [] = (if cur = [] then [] else [cur])"
| "split_from cur (c # cs) =
     (if is_space c then (if cur = [] then split_from [] cs else cur # split_from [] cs)
      else split_from (cur @ [c]) cs)"

definition split :: "string \<Rightarrow> string list" where
  "split s = split_from [] s"

section \<open>\<^verbatim>\<open>build_index\<close>\<close>

text \<open>
  Lines 78 to 80: the loop over \<^verbatim>\<open>enumerate(doc["text"].split())\<close>, on the state
  \<open>(doc_index, collectionLength)\<close>.
\<close>

definition doc_index_step ::
  "nat \<times> string \<Rightarrow> (string \<times> nat list) list \<times> nat \<Rightarrow> (string \<times> nat list) list \<times> nat" where
  "doc_index_step it st =
     (case st of (doc_index, collectionLength) \<Rightarrow>
        (append_at (snd it) (fst it) doc_index, collectionLength + 1))"

text \<open>
  Lines 82 to 88: the loop over \<^verbatim>\<open>doc_index.items()\<close>, on the state \<open>(index, cqi)\<close>.
  The new posting has score 0 and \<^verbatim>\<open>N = len(corpus)\<close>.
\<close>

definition add_posting :: "nat \<Rightarrow> doc \<Rightarrow> string \<times> nat list \<Rightarrow> index \<times> counter \<Rightarrow> index \<times> counter" where
  "add_posting n d it st =
     (case st of (index, cqi) \<Rightarrow>
        (case it of (term, poss) \<Rightarrow>
           (append_at term
              \<lparr>doc_id = sceneId d, positions = poss, termCount = length poss,
               docLen = length (split (text d)), score = 0, N = n\<rparr> index,
            (case map_of cqi term of
               None \<Rightarrow> AList.update term (length poss) cqi
             | Some c \<Rightarrow> AList.update term (c + length poss) cqi))))"

text \<open>Lines 75 to 88: the body of the loop over the corpus, on \<open>(index, collectionLength, cqi)\<close>.\<close>

definition build_doc :: "nat \<Rightarrow> doc \<Rightarrow> index \<times> nat \<times> counter \<Rightarrow> index \<times> nat \<times> counter" where
  "build_doc n d st =
     (case st of (index, collectionLength, cqi) \<Rightarrow>
        (case fold doc_index_step (enumerate 0 (split (text d))) ([], collectionLength) of
           (doc_index, collectionLength') \<Rightarrow>
             (case fold (add_posting n d) doc_index (index, cqi) of
                (index', cqi') \<Rightarrow> (index', collectionLength', cqi'))))"

text \<open>\<^verbatim>\<open>build_index\<close>, from the corpus that \<^verbatim>\<open>read_data\<close> returned.\<close>

definition build_index :: "doc list \<Rightarrow> index \<times> doc list \<times> nat \<times> counter" where
  "build_index corpus =
     (case fold (build_doc (length corpus)) corpus ([], 0, []) of
        (index, collectionLength, cqi) \<Rightarrow> (index, corpus, collectionLength, cqi))"

section \<open>Top-K selection\<close>

text \<open>
  Lines 127 and 128 (and 168, 169): \<^verbatim>\<open>top100.sort(key=lambda x: x.score, reverse=True)\<close>
  followed by \<^verbatim>\<open>top100[:100]\<close>. Python's sort is stable, also with \<^verbatim>\<open>reverse=True\<close>:
  entries of equal score keep their order. \<^const>\<open>sort_key\<close> on the negated score is the
  stable sort into non-increasing score order.
\<close>

definition top_k :: "posting list \<Rightarrow> posting list" where
  "top_k top100 = take 100 (sort_key (\<lambda>x. - score x) top100)"

section \<open>\<^verbatim>\<open>bm25_ranking\<close>\<close>

definition k1 :: real where "k1 = 1.8"
definition k2 :: real where "k2 = 5"
definition b :: real where "b = 0.75"

text \<open>
  Lines 119 to 123, the value added to \<^verbatim>\<open>score\<close>. \<^verbatim>\<open>math.log(x, math.e)\<close> is
  \<open>log (exp 1) x\<close>. No divisor here is zero once \<open>avgdl\<close> is positive.
\<close>

definition bm25_weight :: "nat \<Rightarrow> real \<Rightarrow> nat \<Rightarrow> nat \<Rightarrow> nat \<Rightarrow> nat \<Rightarrow> real" where
  "bm25_weight n avgdl ni qfi fi dl =
     (let K = k1 * ((1 - b) + b * (real dl / avgdl));
          first = log (exp 1) ((real n - real ni + 0.5) / (real ni + 0.5));
          second = ((k1 + 1) * real fi) / (K + real fi);
          third = ((k2 + 1) * real qfi) / (k2 + real qfi)
      in first * second * third)"

text \<open>
  Lines 114 to 125, the body of the loop over the postings of \<^verbatim>\<open>index[term]\<close>, on the
  state \<open>(index, top100, score)\<close>. The division by \<open>avgdl\<close> raises when \<open>avgdl\<close> is zero,
  \<^verbatim>\<open>math.log\<close> raises on a non-positive argument.
\<close>

definition bm25_posting ::
  "nat \<Rightarrow> real \<Rightarrow> nat \<Rightarrow> nat \<Rightarrow> doc \<Rightarrow> string \<Rightarrow> nat \<Rightarrow> index \<times> ref list \<times> real
     \<Rightarrow> py_error + index \<times> ref list \<times> real" where
  "bm25_posting n avgdl ni qfi docs term i st =
     (case st of (index, top100, sc) \<Rightarrow>
        (let p = deref index (term, i) in
         if doc_id p = sceneId docs then
           (if avgdl = 0 then Inl ZeroDivisionError
            else if real n - real ni + 0.5 \<le> 0 then Inl ValueError
            else
              (let sc' = sc + bm25_weight n avgdl ni qfi (termCount p) (docLen p)
               in Inr (set_score (term, i) sc' index, top100 @ [(term, i)], sc')))
         else Inr (index, top100, sc)))"

text \<open>Lines 111 to 125, the body of the loop over \<^verbatim>\<open>uniqueQueryTerms\<close>.\<close>

definition bm25_term ::
  "nat \<Rightarrow> real \<Rightarrow> counter \<Rightarrow> doc \<Rightarrow> string \<Rightarrow> index \<times> ref list \<times> real
     \<Rightarrow> py_error + index \<times> ref list \<times> real" where
  "bm25_term n avgdl queryTerms docs term st =
     (case st of (index, top100, sc) \<Rightarrow>
        (let index1 = touch term index;
             ni = length (getitem index1 term);
             qfi = counter_get queryTerms term
         in for_each (bm25_posting n avgdl ni qfi docs term)
              [0..<length (getitem index1 term)] (index1, top100, sc)))"

text \<open>Lines 109 to 125, the body of the loop over the corpus; \<^verbatim>\<open>score\<close> starts at 0.\<close>

definition bm25_doc ::
  "nat \<Rightarrow> real \<Rightarrow> counter \<Rightarrow> string list \<Rightarrow> doc \<Rightarrow> index \<times> ref list
     \<Rightarrow> py_error + index \<times> ref list" where
  "bm25_doc n avgdl queryTerms uniqueQueryTerms docs st =
     (case st of (index, top100) \<Rightarrow>
        (case for_each (bm25_term n avgdl queryTerms docs) uniqueQueryTerms (index, top100, 0) of
           Inl e \<Rightarrow> Inl e
         | Inr (index', top100', sc) \<Rightarrow> Inr (index', top100')))"

text \<open>Lines 105 to 107.\<close>

definition unique_terms :: "counter \<Rightarrow> string list" where
  "unique_terms queryTerms =
     fold (\<lambda>term u. if term \<in> set u then u else u @ [term]) (map fst queryTerms) []"

text \<open>
  \<^verbatim>\<open>bm25_ranking\<close>. The result is the returned list, each object with the attributes it
  has when the function returns, together with the index as the call leaves it.
\<close>

definition bm25_ranking ::
  "index \<Rightarrow> counter \<Rightarrow> doc list \<Rightarrow> nat \<Rightarrow> py_error + posting list \<times> index" where
  "bm25_ranking index queryTerms corpus collectionLength =
     (if length corpus = 0 then Inl ZeroDivisionError
      else
        (let avgdl = real collectionLength / real (length corpus);
             n = length corpus
         in case for_each (bm25_doc n avgdl queryTerms (unique_terms queryTerms)) corpus (index, []) of
              Inl e \<Rightarrow> Inl e
            | Inr (index', top100) \<Rightarrow> Inr (top_k (map (deref index') top100), index')))"

section \<open>\<^verbatim>\<open>ql_ranking\<close>\<close>

definition mue :: real where "mue = 300"

text \<open>
  Lines 154 and 155 (and 163, 164): \<^verbatim>\<open>cqi[term]\<close> raises on a missing key, the division
  by \<open>cardC\<close> raises when it is zero, \<^verbatim>\<open>math.log\<close> raises on a non-positive argument.
\<close>

definition ql_weight :: "counter \<Rightarrow> nat \<Rightarrow> string \<Rightarrow> nat \<Rightarrow> nat \<Rightarrow> py_error + real" where
  "ql_weight cqi cardC term fqi cardD =
     (case map_of cqi term of
        None \<Rightarrow> Inl KeyError
      | Some c \<Rightarrow>
          if cardC = 0 then Inl ZeroDivisionError
          else
            (let x = (real fqi + mue * (real c / real cardC)) / (real cardD + mue)
             in if x \<le> 0 then Inl ValueError else Inr (log (exp 1) x)))"

text \<open>
  Lines 147 to 166, the body of the loop over the postings of \<^verbatim>\<open>index[term]\<close>, on the
  state \<open>(index, top100)\<close>. Both branches add to the \<^verbatim>\<open>score\<close> attribute of the posting and
  append the posting; the second branch takes \<open>fqi = 0\<close> and the \<^verbatim>\<open>docLen\<close> of the posting.
  The local \<^verbatim>\<open>score\<close> is assigned before each use and is not part of the state; the
  \<^verbatim>\<open>print\<close> of the second branch writes to the standard output only (it reads \<^verbatim>\<open>cqi[term]\<close>,
  as \<open>ql_weight\<close> does first).
\<close>

definition ql_posting ::
  "counter \<Rightarrow> nat \<Rightarrow> doc \<Rightarrow> string \<Rightarrow> nat \<Rightarrow> index \<times> ref list \<Rightarrow> py_error + index \<times> ref list" where
  "ql_posting cqi cardC docs term i st =
     (case st of (index, top100) \<Rightarrow>
        (let p = deref index (term, i) in
         if doc_id p = sceneId docs then
           (case ql_weight cqi cardC term (termCount p) (docLen p) of
              Inl e \<Rightarrow> Inl e
            | Inr w \<Rightarrow> Inr (set_score (term, i) (score p + w) index, top100 @ [(term, i)]))
         else
           (case ql_weight cqi cardC term 0 (docLen p) of
              Inl e \<Rightarrow> Inl e
            | Inr w \<Rightarrow> Inr (set_score (term, i) (score p + w) index, top100 @ [(term, i)]))))"

text \<open>Lines 146 to 166, the body of the loop over \<^verbatim>\<open>terms\<close>.\<close>

definition ql_term ::
  "counter \<Rightarrow> nat \<Rightarrow> doc \<Rightarrow> string \<Rightarrow> index \<times> ref list \<Rightarrow> py_error + index \<times> ref list" where
  "ql_term cqi cardC docs term st =
     (case st of (index, top100) \<Rightarrow>
        (let index1 = touch term index
         in for_each (ql_posting cqi cardC docs term)
              [0..<length (getitem index1 term)] (index1, top100)))"

text \<open>\<^verbatim>\<open>ql_ranking\<close>; iterating the \<^verbatim>\<open>Counter\<close> \<^verbatim>\<open>terms\<close> yields its keys.\<close>

definition ql_ranking ::
  "index \<Rightarrow> counter \<Rightarrow> doc list \<Rightarrow> nat \<Rightarrow> counter \<Rightarrow> py_error + posting list \<times> index" where
  "ql_ranking index terms corpus collectionLength cqi =
     (let cardC = collectionLength
      in case for_each (\<lambda>docs. for_each (ql_term cqi cardC docs) (map fst terms)) corpus (index, []) of
           Inl e \<Rightarrow> Inl e
         | Inr (index', top100) \<Rightarrow> Inr (top_k (map (deref index') top100), index'))"

section \<open>Auxiliary notions for the statements\<close>

text \<open>
  The positions of a term in a token list, the posting that \<^verbatim>\<open>build_index\<close> creates for
  a term of a document, and whether a document contains a term.
\<close>

definition positions_of :: "string \<Rightarrow> string list \<Rightarrow> nat list" where
  "positions_of t toks = filter (\<lambda>i. toks ! i = t) [0..<length toks]"

definition mk_posting :: "nat \<Rightarrow> doc \<Rightarrow> string \<Rightarrow> posting" where
  "mk_posting n d t =
     \<lparr>doc_id = sceneId d, positions = positions_of t (split (text d)),
      termCount = length (positions_of t (split (text d))),
      docLen = length (split (text d)), score = 0, N = n\<rparr>"

definition has_term :: "string \<Rightarrow> doc \<Rightarrow> bool" where
  "has_term t d = (t \<in> set (split (text d)))"

definition new_posting :: "nat \<Rightarrow> doc \<Rightarrow> nat list \<Rightarrow> posting" where
  "new_posting n d poss =
     \<lparr>doc_id = sceneId d, positions = poss, termCount = length poss,
      docLen = length (split (text d)), score = 0, N = n\<rparr>"

text \<open>Three scored entries, two of them with the same score.\<close>

definition entry_lo :: posting where
  "entry_lo = \<lparr>doc_id = ''x'', positions = [0], termCount = 1, docLen = 1, score = 1, N = 3\<rparr>"

definition entry_hi :: posting where
  "entry_hi = \<lparr>doc_id = ''y'', positions = [0], termCount = 1, docLen = 1, score = 2, N = 3\<rparr>"

definition entry_tie :: posting where
  "entry_tie = \<lparr>doc_id = ''z'', positions = [0], termCount = 1, docLen = 1, score = 1, N = 3\<rparr>"

text \<open>
  The attributes of a posting other than its score, which no scorer changes: \<open>shape\<close> sets
  the score aside, and \<open>shapes index term\<close> is \<^verbatim>\<open>index[term]\<close> without the scores.
  \<open>matches sh d term\<close> are the positions in \<^verbatim>\<open>index[term]\<close> of the postings whose
  \<^verbatim>\<open>doc_id\<close> is the identifier of \<open>d\<close>.
\<close>

definition shape :: "posting \<Rightarrow> posting" where
  "shape p = p\<lparr>score := 0\<rparr>"

definition shapes :: "index \<Rightarrow> string \<Rightarrow> posting list" where
  "shapes index t = map shape (getitem index t)"

definition matches :: "(string \<Rightarrow> posting list) \<Rightarrow> doc \<Rightarrow> string \<Rightarrow> nat list" where
  "matches sh d t = filter (\<lambda>i. doc_id (sh t ! i) = sceneId d) [0..<length (sh t)]"

text \<open>
  What the loops of \<^verbatim>\<open>bm25_ranking\<close> accumulate, as sums and lists over the posting
  lists: the value added to \<^verbatim>\<open>score\<close> by one query term, the value of \<^verbatim>\<open>score\<close> when the
  loop over the query terms ends, and the references appended to \<^verbatim>\<open>top100\<close>.
  \<open>bm25_safe\<close> says that neither the division by \<open>avgdl\<close> nor \<^verbatim>\<open>math.log\<close> can raise.
\<close>

definition bm25_sum_term ::
  "nat \<Rightarrow> real \<Rightarrow> counter \<Rightarrow> (string \<Rightarrow> posting list) \<Rightarrow> doc \<Rightarrow> string \<Rightarrow> real" where
  "bm25_sum_term n avgdl q sh d t =
     sum_list (map (\<lambda>i. bm25_weight n avgdl (length (sh t)) (counter_get q t)
                          (termCount (sh t ! i)) (docLen (sh t ! i))) (matches sh d t))"

definition bm25_score_doc ::
  "nat \<Rightarrow> real \<Rightarrow> counter \<Rightarrow> (string \<Rightarrow> posting list) \<Rightarrow> string list \<Rightarrow> doc \<Rightarrow> real" where
  "bm25_score_doc n avgdl q sh ts d = sum_list (map (bm25_sum_term n avgdl q sh d) ts)"

definition bm25_refs_doc :: "(string \<Rightarrow> posting list) \<Rightarrow> string list \<Rightarrow> doc \<Rightarrow> ref list" where
  "bm25_refs_doc sh ts d = concat (map (\<lambda>t. map (Pair t) (matches sh d t)) ts)"

definition bm25_refs :: "(string \<Rightarrow> posting list) \<Rightarrow> string list \<Rightarrow> doc list \<Rightarrow> ref list" where
  "bm25_refs sh ts corpus = concat (map (bm25_refs_doc sh ts) corpus)"

definition bm25_safe :: "nat \<Rightarrow> real \<Rightarrow> (string \<Rightarrow> posting list) \<Rightarrow> bool" where
  "bm25_safe n avgdl sh = (\<forall>t. sh t \<noteq> [] \<longrightarrow> avgdl \<noteq> 0 \<and> length (sh t) \<le> n)"

text \<open>The same for \<^verbatim>\<open>ql_ranking\<close>, where every posting of every query term is appended
  once per document of the corpus.\<close>

definition ql_safe :: "counter \<Rightarrow> nat \<Rightarrow> (string \<Rightarrow> posting list) \<Rightarrow> bool" where
  "ql_safe cqi cardC sh = (\<forall>t. sh t \<noteq> [] \<longrightarrow> (\<exists>c. map_of cqi t = Some c \<and> 0 < c) \<and> 0 < cardC)"

definition ql_refs_doc :: "(string \<Rightarrow> posting list) \<Rightarrow> string list \<Rightarrow> ref list" where
  "ql_refs_doc sh ts = concat (map (\<lambda>t. map (Pair t) [0..<length (sh t)]) ts)"

definition ql_refs :: "(string \<Rightarrow> posting list) \<Rightarrow> string list \<Rightarrow> doc list \<Rightarrow> ref list" where
  "ql_refs sh ts corpus = concat (map (\<lambda>d. ql_refs_doc sh ts) corpus)"

text \<open>
  A document shares a term with the query; the query without the terms that occur
  nowhere in the corpus; and a scorer's state seen through \<^verbatim>\<open>index[term]\<close> only, that is
  up to the keys that hold an empty list.
\<close>

definition shares_term :: "counter \<Rightarrow> doc \<Rightarrow> bool" where
  "shares_term q d = list_ex (\<lambda>t. has_term t d) (map fst q)"

definition known_terms :: "index \<Rightarrow> counter \<Rightarrow> counter" where
  "known_terms index q = filter (\<lambda>kv. getitem index (fst kv) \<noteq> []) q"

definition view :: "index \<times> 'a \<Rightarrow> (string \<Rightarrow> posting list) \<times> 'a" where
  "view s = (getitem (fst s), snd s)"

text \<open>
  The number of entries of a list that belong to a document, and the distinct query terms
  that a document contains.
\<close>

definition entries_for :: "doc \<Rightarrow> posting list \<Rightarrow> nat" where
  "entries_for d ps = length (filter (\<lambda>p. doc_id p = sceneId d) ps)"

definition shared_terms :: "counter \<Rightarrow> doc \<Rightarrow> string list" where
  "shared_terms q d = filter (\<lambda>t. has_term t d) (unique_terms q)"

text \<open>
  Two indexes agree on a list of references: they hold the same postings up to the scores,
  and the same objects, scores included, behind the references of the list.
\<close>

definition agree :: "(string \<Rightarrow> posting list) \<Rightarrow> index \<Rightarrow> index \<Rightarrow> ref list \<Rightarrow> bool" where
  "agree sh i1 i2 top100 =
     (shapes i1 = sh \<and> shapes i2 = sh \<and> list_all (\<lambda>r. deref i1 r = deref i2 r) top100)"

definition agree3 ::
  "(string \<Rightarrow> posting list) \<Rightarrow> index \<times> ref list \<times> real \<Rightarrow> index \<times> ref list \<times> real \<Rightarrow> bool" where
  "agree3 sh s1 s2 = (agree sh (fst s1) (fst s2) (fst (snd s1)) \<and> snd s1 = snd s2)"

definition agree2 :: "(string \<Rightarrow> posting list) \<Rightarrow> index \<times> ref list \<Rightarrow> index \<times> ref list \<Rightarrow> bool" where
  "agree2 sh s1 s2 = (agree sh (fst s1) (fst s2) (snd s1) \<and> snd s1 = snd s2)"

text \<open>Example inputs.\<close>

definition corpus101 :: "doc list" where
  "corpus101 = map (\<lambda>i. \<lparr>sceneId = CHR ''d'' # replicate i (CHR ''x''), text = ''a''\<rparr>) [0..<101]"

definition result101 :: "py_error + posting list \<times> index" where
  "result101 =
     bm25_ranking (fst (build_index corpus101)) (Counter [''a'']) corpus101
       (fst (snd (snd (build_index corpus101))))"

definition ab_corpus :: "doc list" where
  "ab_corpus = [\<lparr>sceneId = ''d'', text = ''a b''\<rparr>]"

definition ab_index :: "real \<Rightarrow> real \<Rightarrow> index" where
  "ab_index sa sb =
     [(''a'', [\<lparr>doc_id = ''d'', positions = [0], termCount = 1, docLen = 2, score = sa, N = 1\<rparr>]),
      (''b'', [\<lparr>doc_id = ''d'', positions = [1], termCount = 1, docLen = 2, score = sb, N = 1\<rparr>])]"

definition two_corpus :: "doc list" where
  "two_corpus = [\<lparr>sceneId = ''d1'', text = ''a''\<rparr>, \<lparr>sceneId = ''d2'', text = ''b''\<rparr>]"

definition two_index :: "real \<Rightarrow> index" where
  "two_index s =
     [(''a'', [\<lparr>doc_id = ''d1'', positions = [0], termCount = 1, docLen = 1, score = s, N = 2\<rparr>]),
      (''b'', [\<lparr>doc_id = ''d2'', positions = [0], termCount = 1, docLen = 1, score = 0, N = 2\<rparr>])]"

definition aa_corpus :: "doc list" where
  "aa_corpus = [\<lparr>sceneId = ''d1'', text = ''a a''\<rparr>, \<lparr>sceneId = ''d2'', text = ''a b''\<rparr>]"

definition aa_index :: "real \<Rightarrow> real \<Rightarrow> index" where
  "aa_index s1 s2 =
     [(''a'', [\<lparr>doc_id = ''d1'', positions = [0, 1], termCount = 2, docLen = 2, score = s1, N = 2\<rparr>,
               \<lparr>doc_id = ''d2'', positions = [0], termCount = 1, docLen = 2, score = s2, N = 2\<rparr>]),
      (''b'', [\<lparr>doc_id = ''d2'', positions = [1], termCount = 1, docLen = 2, score = 0, N = 2\<rparr>])]"

definition cat_corpus :: "doc list" where
  "cat_corpus = [\<lparr>sceneId = ''doc1'', text = ''the cat sat''\<rparr>, \<lparr>sceneId = ''doc2'', text = ''the dog sat''\<rparr>]"

definition cat_index :: index where
  "cat_index =
     [(''the'', [\<lparr>doc_id = ''doc1'', positions = [0], termCount = 1, docLen = 3, score = 0, N = 2\<rparr>,
                 \<lparr>doc_id = ''doc2'', positions = [0], termCount = 1, docLen = 3, score = 0, N = 2\<rparr>]),
      (''cat'', [\<lparr>doc_id = ''doc1'', positions = [1], termCount = 1, docLen = 3, score = 0, N = 2\<rparr>]),
      (''sat'', [\<lparr>doc_id = ''doc1'', positions = [2], termCount = 1, docLen = 3, score = 0, N = 2\<rparr>,
                 \<lparr>doc_id = ''doc2'', positions = [2], termCount = 1, docLen = 3, score = 0, N = 2\<rparr>]),
      (''dog'', [\<lparr>doc_id = ''doc2'', positions = [1], termCount = 1, docLen = 3, score = 0, N = 2\<rparr>])]"

definition cat_cqi :: counter where
  "cat_cqi = [(''the'', 2), (''cat'', 1), (''sat'', 2), (''dog'', 1)]"

definition five_corpus :: "doc list" where
  "five_corpus =
     [\<lparr>sceneId = ''d1'', text = ''a a''\<rparr>, \<lparr>sceneId = ''d2'', text = ''a b''\<rparr>,
      \<lparr>sceneId = ''d3'', text = ''b b''\<rparr>, \<lparr>sceneId = ''d4'', text = ''b b''\<rparr>,
      \<lparr>sceneId = ''d5'', text = ''b b''\<rparr>]"

definition five_index :: index where
  "five_index =
     [(''a'', [\<lparr>doc_id = ''d1'', positions = [0, 1], termCount = 2, docLen = 2, score = 0, N = 5\<rparr>,
               \<lparr>doc_id = ''d2'', positions = [0], termCount = 1, docLen = 2, score = 0, N = 5\<rparr>]),
      (''b'', [\<lparr>doc_id = ''d2'', positions = [1], termCount = 1, docLen = 2, score = 0, N = 5\<rparr>,
               \<lparr>doc_id = ''d3'', positions = [0, 1], termCount = 2, docLen = 2, score = 0, N = 5\<rparr>,
               \<lparr>doc_id = ''d4'', positions = [0, 1], termCount = 2, docLen = 2, score = 0, N = 5\<rparr>,
               \<lparr>doc_id = ''d5'', positions = [0, 1], termCount = 2, docLen = 2, score = 0, N = 5\<rparr>])]"

section \<open>Dictionaries\<close>

lemma getitem_Nil [simp]: "getitem [] k = []"
  by (simp add: getitem_def)

lemma getitem_update: "getitem (AList.update k v d) k' = (if k' = k then v else getitem d k')"
  by (simp add: getitem_def update_conv')

lemma getitem_notin: "k \<notin> set (map fst d) \<Longrightarrow> getitem d k = []"
  by (simp add: getitem_def map_of_eq_None_iff[THEN iffD2])

lemma getitem_append_at:
  "getitem (append_at k v d) k' = (if k' = k then getitem d k @ [v] else getitem d k')"
  by (simp add: append_at_def getitem_update)

lemma keys_append_at: "fst ` set (append_at k v d) = insert k (fst ` set d)"
  by (simp add: append_at_def dom_update)

lemma distinct_append_at: "distinct (map fst d) \<Longrightarrow> distinct (map fst (append_at k v d))"
  by (simp add: append_at_def distinct_update)

section \<open>The loops of \<^verbatim>\<open>build_index\<close>\<close>

lemma doc_index_step_simp:
  "doc_index_step (i, t) (di, c) = (append_at t i di, c + 1)"
  by (simp add: doc_index_step_def)

lemma positions_of_snoc:
  "positions_of t (xs @ [x]) = positions_of t xs @ (if x = t then [length xs] else [])"
  by (auto simp: positions_of_def nth_append intro!: filter_cong)

lemma doc_index_snoc:
  "fold doc_index_step (enumerate 0 (xs @ [x])) s =
     doc_index_step (length xs, x) (fold doc_index_step (enumerate 0 xs) s)"
  by (simp add: enumerate_append_eq)

lemma doc_index_count:
  "snd (fold doc_index_step (enumerate 0 toks) (di, c)) = c + length toks"
proof (induction toks rule: rev_induct)
  case Nil
  show ?case by simp
next
  case (snoc x xs)
  obtain di' c' where f: "fold doc_index_step (enumerate 0 xs) (di, c) = (di', c')"
    by (cases "fold doc_index_step (enumerate 0 xs) (di, c)")
  with snoc show ?case
    by (simp add: doc_index_snoc doc_index_step_simp)
qed

lemma doc_index_getitem:
  "getitem (fst (fold doc_index_step (enumerate 0 toks) ([], c))) t = positions_of t toks"
proof (induction toks rule: rev_induct)
  case Nil
  show ?case by (simp add: positions_of_def)
next
  case (snoc x xs)
  obtain di' c' where f: "fold doc_index_step (enumerate 0 xs) ([], c) = (di', c')"
    by (cases "fold doc_index_step (enumerate 0 xs) ([], c)")
  with snoc show ?case
    by (auto simp: doc_index_snoc doc_index_step_simp positions_of_snoc getitem_append_at)
qed

lemma doc_index_keys:
  "fst ` set (fst (fold doc_index_step (enumerate 0 toks) ([], c))) = set toks"
proof (induction toks rule: rev_induct)
  case Nil
  show ?case by simp
next
  case (snoc x xs)
  obtain di' c' where f: "fold doc_index_step (enumerate 0 xs) ([], c) = (di', c')"
    by (cases "fold doc_index_step (enumerate 0 xs) ([], c)")
  with snoc show ?case
    by (simp add: doc_index_snoc doc_index_step_simp keys_append_at)
qed

lemma doc_index_distinct:
  "distinct (map fst (fst (fold doc_index_step (enumerate 0 toks) ([], c))))"
proof (induction toks rule: rev_induct)
  case Nil
  show ?case by simp
next
  case (snoc x xs)
  obtain di' c' where f: "fold doc_index_step (enumerate 0 xs) ([], c) = (di', c')"
    by (cases "fold doc_index_step (enumerate 0 xs) ([], c)")
  with snoc show ?case
    by (simp add: doc_index_snoc doc_index_step_simp distinct_append_at del: distinct_map)
qed

lemma positions_of_empty_iff: "positions_of t toks = [] \<longleftrightarrow> t \<notin> set toks"
  by (auto simp: positions_of_def filter_empty_conv in_set_conv_nth)

lemma positions_of_sorted: "sorted_wrt (<) (positions_of t toks)"
  by (simp add: positions_of_def sorted_wrt_filter)

lemma counter_get_update:
  "counter_get (AList.update k v c) k' = (if k' = k then v else counter_get c k')"
  by (simp add: counter_get_def update_conv')

lemma add_posting_simp:
  "add_posting n d (t, poss) (index, cqi) =
     (append_at t (new_posting n d poss) index,
      AList.update t (counter_get cqi t + length poss) cqi)"
  by (simp add: add_posting_def new_posting_def counter_get_def split: option.splits)

lemma add_postings_getitem:
  "distinct (map fst items) \<Longrightarrow>
   getitem (fst (fold (add_posting n d) items (index, cqi))) t =
     getitem index t @ (case map_of items t of None \<Rightarrow> [] | Some poss \<Rightarrow> [new_posting n d poss])"
proof (induction items arbitrary: index cqi)
  case Nil
  show ?case by simp
next
  case (Cons it items)
  obtain k poss where it: "it = (k, poss)" by (cases it)
  from Cons.prems it have "map_of items k = None"
    by (simp add: map_of_eq_None_iff)
  with Cons it show ?case
    by (simp add: add_posting_simp getitem_append_at)
qed

lemma add_postings_counter_get:
  "distinct (map fst items) \<Longrightarrow>
   counter_get (snd (fold (add_posting n d) items (index, cqi))) t =
     counter_get cqi t + (case map_of items t of None \<Rightarrow> 0 | Some poss \<Rightarrow> length poss)"
proof (induction items arbitrary: index cqi)
  case Nil
  show ?case by simp
next
  case (Cons it items)
  obtain k poss where it: "it = (k, poss)" by (cases it)
  from Cons.prems it have "map_of items k = None"
    by (simp add: map_of_eq_None_iff)
  with Cons it show ?case
    by (simp add: add_posting_simp counter_get_update)
qed

lemma add_postings_keys:
  "fst ` set (fst (fold (add_posting n d) items (index, cqi))) = fst ` set index \<union> fst ` set items"
  "fst ` set (snd (fold (add_posting n d) items (index, cqi))) = fst ` set cqi \<union> fst ` set items"
proof (induction items arbitrary: index cqi)
  case Nil
  { case 1 show ?case by simp }
  { case 2 show ?case by simp }
next
  case (Cons it items)
  obtain k poss where it: "it = (k, poss)" by (cases it)
  { case 1 show ?case using Cons.IH(1) it by (simp add: add_posting_simp keys_append_at dom_update) }
  { case 2 show ?case using Cons.IH(2) it by (simp add: add_posting_simp keys_append_at dom_update) }
qed

lemma add_postings_distinct:
  "distinct (map fst index) \<Longrightarrow> distinct (map fst (fst (fold (add_posting n d) items (index, cqi))))"
  "distinct (map fst cqi) \<Longrightarrow> distinct (map fst (snd (fold (add_posting n d) items (index, cqi))))"
proof (induction items arbitrary: index cqi)
  case Nil
  { case 1 then show ?case by simp }
  { case 2 then show ?case by simp }
next
  case (Cons it items)
  obtain k poss where it: "it = (k, poss)" by (cases it)
  { case 1 then show ?case using Cons.IH(1) it
      by (simp add: add_posting_simp distinct_append_at del: distinct_map) }
  { case 2 then show ?case using Cons.IH(2) it
      by (simp add: add_posting_simp distinct_update del: distinct_map) }
qed

lemma doc_index_map_of:
  "map_of (fst (fold doc_index_step (enumerate 0 toks) ([], c))) t =
     (if t \<in> set toks then Some (positions_of t toks) else None)"
proof (cases "t \<in> set toks")
  case False
  then show ?thesis
    using doc_index_keys [of toks c] by (simp add: map_of_eq_None_iff)
next
  case True
  then have "t \<in> fst ` set (fst (fold doc_index_step (enumerate 0 toks) ([], c)))"
    by (simp add: doc_index_keys)
  then obtain v where v: "map_of (fst (fold doc_index_step (enumerate 0 toks) ([], c))) t = Some v"
    by (metis map_of_eq_None_iff not_Some_eq)
  then have "getitem (fst (fold doc_index_step (enumerate 0 toks) ([], c))) t = v"
    by (simp add: getitem_def)
  with v True show ?thesis
    by (simp add: doc_index_getitem)
qed

lemma build_doc_simp:
  "build_doc n d (index, cl, cqi) =
     (fst (fold (add_posting n d) (fst (fold doc_index_step (enumerate 0 (split (text d))) ([], cl)))
        (index, cqi)),
      cl + length (split (text d)),
      snd (fold (add_posting n d) (fst (fold doc_index_step (enumerate 0 (split (text d))) ([], cl)))
        (index, cqi)))"
  using doc_index_count [of "split (text d)" "[]" cl]
  by (auto simp: build_doc_def split: prod.splits)

lemma mk_posting_new:
  "new_posting n d (positions_of t (split (text d))) = mk_posting n d t"
  by (simp add: new_posting_def mk_posting_def)

lemma build_doc_getitem:
  "getitem (fst (build_doc n d (index, cl, cqi))) t =
     getitem index t @ (if has_term t d then [mk_posting n d t] else [])"
  by (simp add: build_doc_simp add_postings_getitem doc_index_distinct doc_index_map_of
      has_term_def mk_posting_new del: distinct_map)

lemma build_doc_cqi:
  "counter_get (snd (snd (build_doc n d (index, cl, cqi)))) t =
     counter_get cqi t + length (positions_of t (split (text d)))"
  using positions_of_empty_iff [of t "split (text d)"]
  by (simp add: build_doc_simp add_postings_counter_get doc_index_distinct doc_index_map_of
      del: distinct_map)

lemma build_doc_keys:
  "fst ` set (fst (build_doc n d (index, cl, cqi))) = fst ` set index \<union> set (split (text d))"
  "fst ` set (snd (snd (build_doc n d (index, cl, cqi)))) = fst ` set cqi \<union> set (split (text d))"
  by (simp_all add: build_doc_simp add_postings_keys doc_index_keys)

lemma build_doc_distinct:
  "distinct (map fst index) \<Longrightarrow> distinct (map fst (fst (build_doc n d (index, cl, cqi))))"
  "distinct (map fst cqi) \<Longrightarrow> distinct (map fst (snd (snd (build_doc n d (index, cl, cqi)))))"
  by (simp_all add: build_doc_simp add_postings_distinct del: distinct_map)

lemma build_doc_length:
  "fst (snd (build_doc n d (index, cl, cqi))) = cl + length (split (text d))"
  by (simp add: build_doc_simp)

lemma build_docs_getitem:
  "getitem (fst (fold (build_doc n) ds (index, cl, cqi))) t =
     getitem index t @ map (\<lambda>d. mk_posting n d t) (filter (has_term t) ds)"
proof (induction ds arbitrary: index cl cqi)
  case Nil
  show ?case by simp
next
  case (Cons d ds)
  obtain index' cl' cqi' where s: "build_doc n d (index, cl, cqi) = (index', cl', cqi')"
    by (cases "build_doc n d (index, cl, cqi)")
  have "getitem index' t = getitem index t @ (if has_term t d then [mk_posting n d t] else [])"
    using build_doc_getitem [of n d index cl cqi t] s by simp
  with Cons [of index' cl' cqi'] s show ?case by simp
qed

lemma build_docs_length:
  "fst (snd (fold (build_doc n) ds (index, cl, cqi))) =
     cl + sum_list (map (\<lambda>d. length (split (text d))) ds)"
proof (induction ds arbitrary: index cl cqi)
  case Nil
  show ?case by simp
next
  case (Cons d ds)
  obtain index' cl' cqi' where s: "build_doc n d (index, cl, cqi) = (index', cl', cqi')"
    by (cases "build_doc n d (index, cl, cqi)")
  have "cl' = cl + length (split (text d))"
    using build_doc_length [of n d index cl cqi] s by simp
  with Cons [of index' cl' cqi'] s show ?case by simp
qed

lemma build_docs_cqi:
  "counter_get (snd (snd (fold (build_doc n) ds (index, cl, cqi)))) t =
     counter_get cqi t + sum_list (map (\<lambda>d. length (positions_of t (split (text d)))) ds)"
proof (induction ds arbitrary: index cl cqi)
  case Nil
  show ?case by simp
next
  case (Cons d ds)
  obtain index' cl' cqi' where s: "build_doc n d (index, cl, cqi) = (index', cl', cqi')"
    by (cases "build_doc n d (index, cl, cqi)")
  have "counter_get cqi' t = counter_get cqi t + length (positions_of t (split (text d)))"
    using build_doc_cqi [of n d index cl cqi t] s by simp
  with Cons [of index' cl' cqi'] s show ?case by simp
qed

lemma build_docs_keys:
  "fst ` set (fst (fold (build_doc n) ds (index, cl, cqi))) =
     fst ` set index \<union> (\<Union>d\<in>set ds. set (split (text d)))"
proof (induction ds arbitrary: index cl cqi)
  case Nil
  show ?case by simp
next
  case (Cons d ds)
  obtain index' cl' cqi' where s: "build_doc n d (index, cl, cqi) = (index', cl', cqi')"
    by (cases "build_doc n d (index, cl, cqi)")
  have k: "fst ` set index' = fst ` set index \<union> set (split (text d))"
    using build_doc_keys(1) [of n d index cl cqi] s by simp
  show ?case using Cons.IH [of index' cl' cqi'] s k by (simp add: Un_assoc)
qed

lemma build_docs_cqi_keys:
  "fst ` set (snd (snd (fold (build_doc n) ds (index, cl, cqi)))) =
     fst ` set cqi \<union> (\<Union>d\<in>set ds. set (split (text d)))"
proof (induction ds arbitrary: index cl cqi)
  case Nil
  show ?case by simp
next
  case (Cons d ds)
  obtain index' cl' cqi' where s: "build_doc n d (index, cl, cqi) = (index', cl', cqi')"
    by (cases "build_doc n d (index, cl, cqi)")
  have k: "fst ` set cqi' = fst ` set cqi \<union> set (split (text d))"
    using build_doc_keys(2) [of n d index cl cqi] s by simp
  show ?case using Cons.IH [of index' cl' cqi'] s k by (simp add: Un_assoc)
qed

lemma build_docs_distinct:
  "distinct (map fst index) \<Longrightarrow> distinct (map fst (fst (fold (build_doc n) ds (index, cl, cqi))))"
proof (induction ds arbitrary: index cl cqi)
  case Nil
  then show ?case by simp
next
  case (Cons d ds)
  obtain index' cl' cqi' where s: "build_doc n d (index, cl, cqi) = (index', cl', cqi')"
    by (cases "build_doc n d (index, cl, cqi)")
  have "distinct (map fst index')"
    using build_doc_distinct(1) [OF Cons.prems, of n d cl cqi] s by (simp del: distinct_map)
  then show ?case using Cons.IH [of index' cl' cqi'] s by (simp del: distinct_map)
qed

lemma build_docs_cqi_distinct:
  "distinct (map fst cqi) \<Longrightarrow> distinct (map fst (snd (snd (fold (build_doc n) ds (index, cl, cqi)))))"
proof (induction ds arbitrary: index cl cqi)
  case Nil
  then show ?case by simp
next
  case (Cons d ds)
  obtain index' cl' cqi' where s: "build_doc n d (index, cl, cqi) = (index', cl', cqi')"
    by (cases "build_doc n d (index, cl, cqi)")
  have "distinct (map fst cqi')"
    using build_doc_distinct(2) [OF Cons.prems, of n d index cl] s by (simp del: distinct_map)
  then show ?case using Cons.IH [of cqi' index' cl'] s by (simp del: distinct_map)
qed

lemma build_index_eq:
  "build_index corpus =
     (fst (fold (build_doc (length corpus)) corpus ([], 0, [])), corpus,
      fst (snd (fold (build_doc (length corpus)) corpus ([], 0, []))),
      snd (snd (fold (build_doc (length corpus)) corpus ([], 0, []))))"
  by (simp add: build_index_def split: prod.splits)

lemma build_index_parts:
  assumes "build_index corpus = (index, corpus', cl, cqi)"
  shows "index = fst (fold (build_doc (length corpus)) corpus ([], 0, []))"
    and "corpus' = corpus"
    and "cl = fst (snd (fold (build_doc (length corpus)) corpus ([], 0, [])))"
    and "cqi = snd (snd (fold (build_doc (length corpus)) corpus ([], 0, [])))"
  using assms unfolding build_index_eq by auto

lemma build_index_getitem:
  assumes "build_index corpus = (index, corpus', cl, cqi)"
  shows "getitem index t = map (\<lambda>d. mk_posting (length corpus) d t) (filter (has_term t) corpus)"
  unfolding build_index_parts(1) [OF assms] by (rule build_docs_getitem [where index="[]", simplified])

lemma build_index_length:
  assumes "build_index corpus = (index, corpus', cl, cqi)"
  shows "cl = sum_list (map (\<lambda>d. length (split (text d))) corpus)"
  unfolding build_index_parts(3) [OF assms] by (simp add: build_docs_length)

lemma build_index_keys:
  assumes "build_index corpus = (index, corpus', cl, cqi)"
  shows "fst ` set index = (\<Union>d\<in>set corpus. set (split (text d)))"
    and "fst ` set cqi = (\<Union>d\<in>set corpus. set (split (text d)))"
    and "distinct (map fst index)" and "distinct (map fst cqi)"
  unfolding build_index_parts(1,4) [OF assms]
  by (simp_all add: build_docs_keys build_docs_cqi_keys build_docs_distinct
      build_docs_cqi_distinct del: distinct_map)

lemma sum_list_filter_zero:
  "(\<And>x. x \<in> set xs \<Longrightarrow> \<not> P x \<Longrightarrow> f x = (0::nat)) \<Longrightarrow>
   sum_list (map f (filter P xs)) = sum_list (map f xs)"
  by (induction xs) auto

lemma build_index_cqi:
  assumes "build_index corpus = (index, corpus', cl, cqi)"
  shows "counter_get cqi t = sum_list (map termCount (getitem index t))"
proof -
  have "counter_get cqi t = sum_list (map (\<lambda>d. length (positions_of t (split (text d)))) corpus)"
    unfolding build_index_parts(4) [OF assms]
    by (simp add: build_docs_cqi) (simp add: counter_get_def)
  also have "\<dots> = sum_list (map (\<lambda>d. length (positions_of t (split (text d)))) (filter (has_term t) corpus))"
    by (rule sum_list_filter_zero [symmetric]) (simp add: has_term_def positions_of_empty_iff)
  also have "\<dots> = sum_list (map termCount (getitem index t))"
    by (simp add: build_index_getitem [OF assms] mk_posting_def comp_def)
  finally show ?thesis .
qed

lemma key_getitem_nonempty:
  assumes "build_index corpus = (index, corpus', cl, cqi)"
  shows "t \<in> fst ` set index \<longleftrightarrow> getitem index t \<noteq> []"
  by (auto simp: build_index_keys(1) [OF assms] build_index_getitem [OF assms] filter_empty_conv
      has_term_def)

section \<open>The index of a one-document corpus\<close>

text \<open>
  C7. Building the index of a corpus with one document whose text is \<^verbatim>\<open>"a b a"\<close> yields
  exactly two index entries: \<^verbatim>\<open>index["a"]\<close> is one posting of that document with positions
  \<open>[0, 2]\<close>, term frequency 2 and document length 3, and \<^verbatim>\<open>index["b"]\<close> is one posting of
  that document with positions \<open>[1]\<close>, term frequency 1 and document length 3. The
  collection length is 3, and \<open>cqi\<close> counts \<open>a\<close> twice and \<open>b\<close> once.
\<close>

theorem build_index_a_b_a:
  "build_index [\<lparr>sceneId = d, text = ''a b a''\<rparr>] =
     ([(''a'', [\<lparr>doc_id = d, positions = [0, 2], termCount = 2, docLen = 3, score = 0, N = 1\<rparr>]),
       (''b'', [\<lparr>doc_id = d, positions = [1], termCount = 1, docLen = 3, score = 0, N = 1\<rparr>])],
      [\<lparr>sceneId = d, text = ''a b a''\<rparr>], 3, [(''a'', 2), (''b'', 1)])"
  by (simp add: build_index_def build_doc_def split_def is_space_def doc_index_step_def
      enumerate_eq_zip add_posting_def append_at_def getitem_def upt_rec)

section \<open>Invariants of the built index\<close>

text \<open>
  C6. For every corpus, the index and the statistics that \<^verbatim>\<open>build_index\<close> returns satisfy:
  every term that is a key of the index has a non-empty posting list; the postings of a
  term are, in corpus order, one for each document that contains the term, so the
  length of \<^verbatim>\<open>index[term]\<close> is the number of documents containing the term, and no two
  postings of a term share a document when the document identifiers are distinct; the
  term frequency of every posting is the length of its positions list, which is strictly
  increasing and not empty; the collection length is the sum of the document lengths;
  and \<^verbatim>\<open>cqi[term]\<close> is the sum of the term frequencies over \<^verbatim>\<open>index[term]\<close>.
\<close>

theorem build_index_invariants:
  assumes "build_index corpus = (index, corpus', collectionLength, cqi)"
  shows "corpus' = corpus \<and>
    distinct (map fst index) \<and>
    (\<forall>term \<in> set (map fst index). getitem index term \<noteq> []) \<and>
    (\<forall>term. map doc_id (getitem index term) = map sceneId (filter (has_term term) corpus)) \<and>
    (\<forall>term. length (getitem index term) = length (filter (has_term term) corpus)) \<and>
    (distinct (map sceneId corpus) \<longrightarrow> (\<forall>term. distinct (map doc_id (getitem index term)))) \<and>
    (\<forall>term. \<forall>p \<in> set (getitem index term).
       termCount p = length (positions p) \<and> sorted_wrt (<) (positions p) \<and> positions p \<noteq> []) \<and>
    collectionLength = sum_list (map (\<lambda>d. length (split (text d))) corpus) \<and>
    (\<forall>term \<in> set (map fst index).
       map_of cqi term = Some (sum_list (map termCount (getitem index term))))"
proof -
  note g = build_index_getitem [OF assms]
  have c1: "corpus' = corpus"
    by (rule build_index_parts(2) [OF assms])
  have c2: "distinct (map fst index)"
    by (rule build_index_keys(3) [OF assms])
  have c3: "\<forall>term \<in> set (map fst index). getitem index term \<noteq> []"
    using key_getitem_nonempty [OF assms] by simp
  have c4: "\<forall>term. map doc_id (getitem index term) = map sceneId (filter (has_term term) corpus)"
    by (simp add: g mk_posting_def comp_def)
  have c5: "\<forall>term. length (getitem index term) = length (filter (has_term term) corpus)"
    by (simp add: g)
  have c6: "distinct (map sceneId corpus) \<longrightarrow> (\<forall>term. distinct (map doc_id (getitem index term)))"
    using c4 by (simp add: distinct_map_filter del: distinct_map)
  have c7: "\<forall>term. \<forall>p \<in> set (getitem index term).
       termCount p = length (positions p) \<and> sorted_wrt (<) (positions p) \<and> positions p \<noteq> []"
    by (auto simp: g mk_posting_def positions_of_sorted positions_of_empty_iff has_term_def)
  have c8: "collectionLength = sum_list (map (\<lambda>d. length (split (text d))) corpus)"
    by (rule build_index_length [OF assms])
  have c9: "\<forall>term \<in> set (map fst index).
       map_of cqi term = Some (sum_list (map termCount (getitem index term)))"
  proof
    fix t assume "t \<in> set (map fst index)"
    then have "t \<in> fst ` set cqi"
      by (simp add: build_index_keys(1,2) [OF assms])
    then obtain c where c: "map_of cqi t = Some c"
      by (metis map_of_eq_None_iff not_Some_eq)
    then have "counter_get cqi t = c"
      by (simp add: counter_get_def)
    with c show "map_of cqi t = Some (sum_list (map termCount (getitem index t)))"
      by (simp add: build_index_cqi [OF assms])
  qed
  from c1 c2 c3 c4 c5 c6 c7 c8 c9 show ?thesis by blast
qed

theorem build_index_invariants_witness:
  "build_index [\<lparr>sceneId = ''d1'', text = ''a b a''\<rparr>, \<lparr>sceneId = ''d2'', text = ''b c''\<rparr>] =
     ([(''a'', [\<lparr>doc_id = ''d1'', positions = [0, 2], termCount = 2, docLen = 3, score = 0, N = 2\<rparr>]),
       (''b'', [\<lparr>doc_id = ''d1'', positions = [1], termCount = 1, docLen = 3, score = 0, N = 2\<rparr>,
                \<lparr>doc_id = ''d2'', positions = [0], termCount = 1, docLen = 2, score = 0, N = 2\<rparr>]),
       (''c'', [\<lparr>doc_id = ''d2'', positions = [1], termCount = 1, docLen = 2, score = 0, N = 2\<rparr>])],
      [\<lparr>sceneId = ''d1'', text = ''a b a''\<rparr>, \<lparr>sceneId = ''d2'', text = ''b c''\<rparr>], 5,
      [(''a'', 2), (''b'', 2), (''c'', 1)]) \<and>
   5 = sum_list (map (\<lambda>d. length (split (text d)))
         [\<lparr>sceneId = ''d1'', text = ''a b a''\<rparr>, \<lparr>sceneId = ''d2'', text = ''b c''\<rparr>]) \<and>
   map_of [(''a'', 2), (''b'', 2), (''c'', 1 :: nat)] ''b'' = Some (1 + 1)"
proof -
  have h: "build_index [\<lparr>sceneId = ''d1'', text = ''a b a''\<rparr>, \<lparr>sceneId = ''d2'', text = ''b c''\<rparr>] =
     ([(''a'', [\<lparr>doc_id = ''d1'', positions = [0, 2], termCount = 2, docLen = 3, score = 0, N = 2\<rparr>]),
       (''b'', [\<lparr>doc_id = ''d1'', positions = [1], termCount = 1, docLen = 3, score = 0, N = 2\<rparr>,
                \<lparr>doc_id = ''d2'', positions = [0], termCount = 1, docLen = 2, score = 0, N = 2\<rparr>]),
       (''c'', [\<lparr>doc_id = ''d2'', positions = [1], termCount = 1, docLen = 2, score = 0, N = 2\<rparr>])],
      [\<lparr>sceneId = ''d1'', text = ''a b a''\<rparr>, \<lparr>sceneId = ''d2'', text = ''b c''\<rparr>], 5,
      [(''a'', 2), (''b'', 2), (''c'', 1)])"
    by (simp add: build_index_def build_doc_def split_def is_space_def doc_index_step_def
        enumerate_eq_zip add_posting_def append_at_def getitem_def upt_rec)
  from build_index_invariants [OF h] h show ?thesis
    by (simp add: getitem_def)
qed

section \<open>Top-K selection\<close>

lemma top_k_length: "length (top_k xs) = min 100 (length xs)"
  by (simp add: top_k_def)

lemma sort_desc_sorted: "sorted_wrt (\<lambda>p q. score q \<le> score p) (sort_key (\<lambda>x. - score x) xs)"
  using sorted_sort_key [of "\<lambda>x. - score x" xs] by (simp add: sorted_map)

lemma top_k_sorted: "sorted_wrt (\<lambda>p q. score q \<le> score p) (top_k xs)"
  unfolding top_k_def by (rule sorted_wrt_take [OF sort_desc_sorted])

lemma top_k_mset: "mset (top_k xs) + mset (drop 100 (sort_key (\<lambda>x. - score x) xs)) = mset xs"
proof -
  have "mset (take 100 (sort_key (\<lambda>x. - score x) xs) @ drop 100 (sort_key (\<lambda>x. - score x) xs)) = mset xs"
    by (simp only: append_take_drop_id mset_sort)
  then show ?thesis by (simp only: top_k_def mset_append)
qed

lemma top_k_highest:
  assumes "p \<in> set (top_k xs)" and "q \<in># mset xs - mset (top_k xs)"
  shows "score q \<le> score p"
proof -
  let ?ys = "sort_key (\<lambda>x. - score x) xs"
  have "mset xs - mset (top_k xs) = mset (drop 100 ?ys)"
    using top_k_mset [of xs] by (metis add_diff_cancel_left')
  with assms(2) have q: "q \<in> set (drop 100 ?ys)" by simp
  have "sorted_wrt (\<lambda>p q. score q \<le> score p) (take 100 ?ys @ drop 100 ?ys)"
    using sort_desc_sorted [of xs] by simp
  then show ?thesis
    using assms(1) q unfolding sorted_wrt_append top_k_def by blast
qed

lemma top_k_stable: "prefix (filter (\<lambda>p. score p = v) (top_k xs)) (filter (\<lambda>p. score p = v) xs)"
proof -
  have "filter (\<lambda>p. - score p = - v) (sort_key (\<lambda>x. - score x) xs) = filter (\<lambda>p. - score p = - v) xs"
    by (rule sort_key_stable)
  then have "filter (\<lambda>p. score p = v) (sort_key (\<lambda>x. - score x) xs) = filter (\<lambda>p. score p = v) xs"
    by simp
  moreover have "prefix (filter (\<lambda>p. score p = v) (take 100 (sort_key (\<lambda>x. - score x) xs)))
      (filter (\<lambda>p. score p = v) (sort_key (\<lambda>x. - score x) xs))"
    by (rule filter_mono_prefix) (rule take_is_prefix)
  ultimately show ?thesis by (simp add: top_k_def)
qed

lemma top_k_all: "length xs \<le> 100 \<Longrightarrow> top_k xs = sort_key (\<lambda>x. - score x) xs"
  by (simp add: top_k_def)

lemma top_k_id:
  assumes "length xs \<le> 100" and "sorted_wrt (\<lambda>p q. score q \<le> score p) xs"
  shows "top_k xs = xs"
proof -
  have "sorted (map (\<lambda>x. - score x) xs)"
    using assms(2) by (simp add: sorted_map)
  then have "sort_key (\<lambda>x. - score x) xs = xs"
    by (rule sort_key_id_if_sorted)
  with assms(1) show ?thesis by (simp add: top_k_def)
qed

text \<open>
  C5. For every sequence of scored entries, the sort-and-truncate step of both scorers
  (K = 100) returns min(100, length) entries in non-increasing score order; they are
  entries of the input, and each of them scores at least as high as every entry left out,
  so they are the K highest-scoring entries; among entries of equal score the order of
  production is kept and the earliest are the ones returned (stable). With fewer than K
  entries (indeed with at most K) all of them are returned, none modified, in
  non-increasing score order; an input already in that order is returned as it is. On
  250 entries exactly 100 are returned, on 5 entries all 5.
\<close>

theorem top_k_selects:
  "length (top_k xs) = min 100 (length xs) \<and>
   sorted_wrt (\<lambda>p q. score q \<le> score p) (top_k xs) \<and>
   mset (top_k xs) \<subseteq># mset xs \<and>
   (\<forall>p \<in> set (top_k xs). \<forall>q \<in># mset xs - mset (top_k xs). score q \<le> score p) \<and>
   (\<forall>v. prefix (filter (\<lambda>p. score p = v) (top_k xs)) (filter (\<lambda>p. score p = v) xs)) \<and>
   (length xs \<le> 100 \<longrightarrow> mset (top_k xs) = mset xs) \<and>
   (length xs \<le> 100 \<and> sorted_wrt (\<lambda>p q. score q \<le> score p) xs \<longrightarrow> top_k xs = xs) \<and>
   (length xs = 250 \<longrightarrow> length (top_k xs) = 100) \<and>
   (length xs = 5 \<longrightarrow> length (top_k xs) = 5 \<and> mset (top_k xs) = mset xs)"
proof -
  have sub: "mset (top_k xs) \<subseteq># mset xs"
    using top_k_mset [of xs] by (metis mset_subset_eq_add_left)
  have all: "length xs \<le> 100 \<longrightarrow> mset (top_k xs) = mset xs"
    by (simp add: top_k_all)
  show ?thesis
    using top_k_length [of xs] top_k_sorted [of xs] sub top_k_highest [of _ xs] top_k_stable [of _ xs]
      all top_k_id [of xs]
    by auto
qed

theorem top_k_selects_witness:
  "top_k [entry_lo, entry_hi, entry_tie] = [entry_hi, entry_lo, entry_tie] \<and>
   length (top_k [entry_lo, entry_hi, entry_tie]) = 3 \<and>
   mset (top_k [entry_lo, entry_hi, entry_tie]) = mset [entry_lo, entry_hi, entry_tie] \<and>
   filter (\<lambda>p. score p = 1) (top_k [entry_lo, entry_hi, entry_tie]) = [entry_lo, entry_tie]"
  using top_k_selects [of "[entry_lo, entry_hi, entry_tie]"]
  by (simp add: top_k_def entry_lo_def entry_hi_def entry_tie_def)

section \<open>Scores aside: what the scorers leave unchanged\<close>

lemma shape_simps [simp]:
  "doc_id (shape p) = doc_id p" "termCount (shape p) = termCount p" "docLen (shape p) = docLen p"
  "positions (shape p) = positions p" "N (shape p) = N p" "shape (p\<lparr>score := s\<rparr>) = shape p"
  by (simp_all add: shape_def)

lemma getitem_touch [simp]: "getitem (touch t index) u = getitem index u"
  by (auto simp: getitem_def touch_def map_of_append split: option.splits if_splits)

lemma keys_touch: "fst ` set (touch t index) = insert t (fst ` set index)"
  by (auto simp: touch_def map_of_eq_None_iff split: option.splits dest: map_of_SomeD
      intro: rev_image_eqI)

lemma getitem_set_score:
  "getitem (set_score (t, i) s index) u =
     (if u = t then (getitem index t)[i := (getitem index t ! i)\<lparr>score := s\<rparr>] else getitem index u)"
  by (simp add: set_score_def getitem_update deref_def)

lemma keys_set_score: "fst ` set (set_score (t, i) s index) = insert t (fst ` set index)"
  by (simp add: set_score_def dom_update)

lemma shapes_touch [simp]: "shapes (touch t index) = shapes index"
  by (simp add: shapes_def fun_eq_iff)

lemma map_shape_update: "map shape (xs[i := (xs ! i)\<lparr>score := s\<rparr>]) = map shape xs"
  by (cases "i < length xs") (auto simp: list_eq_iff_nth_eq nth_list_update)

lemma shapes_set_score [simp]: "shapes (set_score (t, i) s index) = shapes index"
  by (simp add: shapes_def fun_eq_iff getitem_set_score map_shape_update)

lemma length_shapes [simp]: "length (shapes index t) = length (getitem index t)"
  by (simp add: shapes_def)

lemma shapes_empty_iff: "shapes index t = [] \<longleftrightarrow> getitem index t = []"
  by (simp add: shapes_def)

lemma deref_shape: "i < length (getitem index t) \<Longrightarrow> shape (deref index (t, i)) = shapes index t ! i"
  by (simp add: shapes_def deref_def)

lemma deref_fields:
  assumes "i < length (getitem index t)"
  shows "doc_id (deref index (t, i)) = doc_id (shapes index t ! i)"
    and "termCount (deref index (t, i)) = termCount (shapes index t ! i)"
    and "docLen (deref index (t, i)) = docLen (shapes index t ! i)"
  using deref_shape [OF assms, symmetric] by simp_all

lemma key_map_of: "t \<in> fst ` set index \<Longrightarrow> map_of index t = Some (getitem index t)"
  by (cases "map_of index t") (auto simp: getitem_def map_of_eq_None_iff)

lemma inserted_empty:
  assumes "t \<notin> fst ` set index" and "shapes index' = shapes index" and "t \<in> fst ` set index'"
  shows "map_of index' t = Some []"
proof -
  have "getitem index t = []"
    using assms(1) by (simp add: getitem_def map_of_eq_None_iff [THEN iffD2])
  then have "getitem index' t = []"
    using assms(2) by (metis shapes_empty_iff)
  with key_map_of [OF assms(3)] show ?thesis by simp
qed

lemma for_each_append:
  "for_each body (xs @ ys) s =
     (case for_each body xs s of Inl e \<Rightarrow> Inl e | Inr s' \<Rightarrow> for_each body ys s')"
  by (induction xs arbitrary: s) (auto split: sum.splits)

lemma log_e [simp]: "log (exp 1) x = ln x"
  by (simp add: log_def)

section \<open>The loops of \<^verbatim>\<open>bm25_ranking\<close>\<close>

lemma bm25_posting_simp:
  "bm25_posting n avgdl ni qfi docs term i (index, top100, sc) =
     (if doc_id (deref index (term, i)) = sceneId docs then
        (if avgdl = 0 then Inl ZeroDivisionError
         else if real n - real ni + 0.5 \<le> 0 then Inl ValueError
         else Inr (set_score (term, i)
                     (sc + bm25_weight n avgdl ni qfi (termCount (deref index (term, i)))
                             (docLen (deref index (term, i)))) index,
                   top100 @ [(term, i)],
                   sc + bm25_weight n avgdl ni qfi (termCount (deref index (term, i)))
                          (docLen (deref index (term, i)))))
      else Inr (index, top100, sc))"
  by (simp add: bm25_posting_def Let_def)

lemma bm25_postings:
  assumes "set js \<subseteq> {..<length (sh t)}" and "js \<noteq> [] \<longrightarrow> avgdl \<noteq> 0 \<and> ni \<le> n"
    and "shapes index = sh" and "t \<in> fst ` set index"
  shows "\<exists>index'. for_each (bm25_posting n avgdl ni qfi d t) js (index, top100, sc) =
           Inr (index',
                top100 @ map (Pair t) (filter (\<lambda>i. doc_id (sh t ! i) = sceneId d) js),
                sc + sum_list (map (\<lambda>i. bm25_weight n avgdl ni qfi (termCount (sh t ! i)) (docLen (sh t ! i)))
                        (filter (\<lambda>i. doc_id (sh t ! i) = sceneId d) js))) \<and>
         shapes index' = sh \<and> fst ` set index' = fst ` set index"
  using assms
proof (induction js arbitrary: index top100 sc)
  case Nil
  then show ?case by simp
next
  case (Cons i js)
  from Cons.prems have i: "i < length (getitem index t)" and ok: "avgdl \<noteq> 0" "ni \<le> n"
    and js: "set js \<subseteq> {..<length (sh t)}" "js \<noteq> [] \<longrightarrow> avgdl \<noteq> 0 \<and> ni \<le> n"
    by auto
  note f = deref_fields [OF i, unfolded Cons.prems(3)]
  show ?case
  proof (cases "doc_id (sh t ! i) = sceneId d")
    case True
    let ?sc = "sc + bm25_weight n avgdl ni qfi (termCount (sh t ! i)) (docLen (sh t ! i))"
    let ?index = "set_score (t, i) ?sc index"
    have step: "bm25_posting n avgdl ni qfi d t i (index, top100, sc) =
        Inr (?index, top100 @ [(t, i)], ?sc)"
      using True ok by (simp add: bm25_posting_simp f)
    have "shapes ?index = sh" "t \<in> fst ` set ?index"
      using Cons.prems(3,4) by (simp_all add: keys_set_score)
    from Cons.IH [OF js this, of "top100 @ [(t, i)]" ?sc]
    obtain index' where r: "for_each (bm25_posting n avgdl ni qfi d t) js (?index, top100 @ [(t, i)], ?sc) =
           Inr (index',
                (top100 @ [(t, i)]) @ map (Pair t) (filter (\<lambda>i. doc_id (sh t ! i) = sceneId d) js),
                ?sc + sum_list (map (\<lambda>i. bm25_weight n avgdl ni qfi (termCount (sh t ! i)) (docLen (sh t ! i)))
                        (filter (\<lambda>i. doc_id (sh t ! i) = sceneId d) js)))"
      and r2: "shapes index' = sh" "fst ` set index' = fst ` set ?index"
      by blast
    have "fst ` set index' = fst ` set index"
      using r2(2) Cons.prems(4) by (simp add: keys_set_score insert_absorb)
    with step r r2(1) True show ?thesis
      by (intro exI [of _ index']) (simp add: add.assoc)
  next
    case False
    have step: "bm25_posting n avgdl ni qfi d t i (index, top100, sc) = Inr (index, top100, sc)"
      using False by (simp add: bm25_posting_simp f)
    from Cons.IH [OF js Cons.prems(3,4), of top100 sc] step False
    show ?thesis by simp
  qed
qed

lemma bm25_term_simp:
  "bm25_term n avgdl q d t (index, top100, sc) =
     for_each (bm25_posting n avgdl (length (getitem index t)) (counter_get q t) d t)
       [0..<length (getitem index t)] (touch t index, top100, sc)"
  by (simp add: bm25_term_def Let_def)

lemma bm25_term_run:
  assumes "sh t \<noteq> [] \<longrightarrow> avgdl \<noteq> 0 \<and> length (sh t) \<le> n" and "shapes index = sh"
  shows "\<exists>index'. bm25_term n avgdl q d t (index, top100, sc) =
           Inr (index', top100 @ map (Pair t) (matches sh d t), sc + bm25_sum_term n avgdl q sh d t) \<and>
         shapes index' = sh \<and> fst ` set index' = insert t (fst ` set index)"
proof -
  have len: "length (getitem index t) = length (sh t)"
    using assms(2) by (metis length_shapes)
  have ok: "[0..<length (sh t)] \<noteq> [] \<longrightarrow> avgdl \<noteq> 0 \<and> length (sh t) \<le> n"
    using assms(1) by auto
  have sub: "set [0..<length (sh t)] \<subseteq> {..<length (sh t)}" by auto
  have sh: "shapes (touch t index) = sh" and key: "t \<in> fst ` set (touch t index)"
    using assms(2) by (simp_all add: keys_touch)
  show ?thesis
    using bm25_postings [where js = "[0..<length (sh t)]" and sh = sh and t = t
        and index = "touch t index" and avgdl = avgdl and ni = "length (sh t)" and n = n
        and qfi = "counter_get q t" and d = d and ?top100.0 = top100 and sc = sc,
        OF sub ok sh key]
    by (simp add: bm25_term_simp len keys_touch matches_def bm25_sum_term_def)
qed

lemma bm25_terms_run:
  assumes "\<forall>t\<in>set ts. sh t \<noteq> [] \<longrightarrow> avgdl \<noteq> 0 \<and> length (sh t) \<le> n" and "shapes index = sh"
  shows "\<exists>index'. for_each (bm25_term n avgdl q d) ts (index, top100, sc) =
           Inr (index', top100 @ bm25_refs_doc sh ts d, sc + bm25_score_doc n avgdl q sh ts d) \<and>
         shapes index' = sh \<and> fst ` set index' = fst ` set index \<union> set ts"
  using assms
proof (induction ts arbitrary: index top100 sc)
  case Nil
  then show ?case by (simp add: bm25_refs_doc_def bm25_score_doc_def)
next
  case (Cons t ts)
  from Cons.prems(1) have ok: "sh t \<noteq> [] \<longrightarrow> avgdl \<noteq> 0 \<and> length (sh t) \<le> n"
    and oks: "\<forall>t\<in>set ts. sh t \<noteq> [] \<longrightarrow> avgdl \<noteq> 0 \<and> length (sh t) \<le> n"
    by simp_all
  from bm25_term_run [OF ok Cons.prems(2), of q d top100 sc]
  obtain index1 where s1: "bm25_term n avgdl q d t (index, top100, sc) =
           Inr (index1, top100 @ map (Pair t) (matches sh d t), sc + bm25_sum_term n avgdl q sh d t)"
    and i1: "shapes index1 = sh" "fst ` set index1 = insert t (fst ` set index)"
    by blast
  from Cons.IH [OF oks i1(1), of "top100 @ map (Pair t) (matches sh d t)" "sc + bm25_sum_term n avgdl q sh d t"]
  obtain index' where s2: "for_each (bm25_term n avgdl q d) ts
        (index1, top100 @ map (Pair t) (matches sh d t), sc + bm25_sum_term n avgdl q sh d t) =
           Inr (index', (top100 @ map (Pair t) (matches sh d t)) @ bm25_refs_doc sh ts d,
                (sc + bm25_sum_term n avgdl q sh d t) + bm25_score_doc n avgdl q sh ts d)"
    and i2: "shapes index' = sh" "fst ` set index' = fst ` set index1 \<union> set ts"
    by blast
  show ?case
    using s1 s2 i1 i2
    by (intro exI [of _ index']) (simp add: bm25_refs_doc_def bm25_score_doc_def add.assoc)
qed

lemma bm25_doc_simp:
  "bm25_doc n avgdl q ts d (index, top100) =
     (case for_each (bm25_term n avgdl q d) ts (index, top100, 0) of
        Inl e \<Rightarrow> Inl e
      | Inr (index', top100', sc) \<Rightarrow> Inr (index', top100'))"
  by (simp add: bm25_doc_def)

lemma bm25_doc_run:
  assumes "bm25_safe n avgdl sh" and "shapes index = sh"
  shows "\<exists>index'. bm25_doc n avgdl q ts d (index, top100) = Inr (index', top100 @ bm25_refs_doc sh ts d) \<and>
         shapes index' = sh \<and> fst ` set index' = fst ` set index \<union> set ts"
proof -
  have "\<forall>t\<in>set ts. sh t \<noteq> [] \<longrightarrow> avgdl \<noteq> 0 \<and> length (sh t) \<le> n"
    using assms(1) by (simp add: bm25_safe_def)
  from bm25_terms_run [OF this assms(2), of q d top100 0] show ?thesis
    by (auto simp: bm25_doc_simp)
qed

lemma bm25_docs_run:
  assumes "bm25_safe n avgdl sh" and "shapes index = sh"
  shows "\<exists>index'. for_each (bm25_doc n avgdl q ts) corpus (index, top100) =
           Inr (index', top100 @ bm25_refs sh ts corpus) \<and>
         shapes index' = sh \<and>
         fst ` set index' = fst ` set index \<union> (if corpus = [] then {} else set ts)"
  using assms(2)
proof (induction corpus arbitrary: index top100)
  case Nil
  then show ?case by (simp add: bm25_refs_def)
next
  case (Cons d corpus)
  from bm25_doc_run [OF assms(1) Cons.prems, of q ts d top100]
  obtain index1 where s1: "bm25_doc n avgdl q ts d (index, top100) =
        Inr (index1, top100 @ bm25_refs_doc sh ts d)"
    and i1: "shapes index1 = sh" "fst ` set index1 = fst ` set index \<union> set ts"
    by blast
  from Cons.IH [OF i1(1), of "top100 @ bm25_refs_doc sh ts d"]
  obtain index' where s2: "for_each (bm25_doc n avgdl q ts) corpus (index1, top100 @ bm25_refs_doc sh ts d) =
           Inr (index', (top100 @ bm25_refs_doc sh ts d) @ bm25_refs sh ts corpus)"
    and i2: "shapes index' = sh"
      "fst ` set index' = fst ` set index1 \<union> (if corpus = [] then {} else set ts)"
    by blast
  show ?case
    using s1 s2 i1 i2
    by (intro exI [of _ index']) (auto simp: bm25_refs_def)
qed

lemma bm25_ranking_run:
  assumes "corpus \<noteq> []"
    and "bm25_safe (length corpus) (real cl / real (length corpus)) (shapes index)"
  shows "\<exists>index'. for_each (bm25_doc (length corpus) (real cl / real (length corpus)) q (unique_terms q))
             corpus (index, []) = Inr (index', bm25_refs (shapes index) (unique_terms q) corpus) \<and>
         bm25_ranking index q corpus cl =
           Inr (top_k (map (deref index') (bm25_refs (shapes index) (unique_terms q) corpus)), index') \<and>
         shapes index' = shapes index \<and>
         fst ` set index' = fst ` set index \<union> set (unique_terms q)"
proof -
  from bm25_docs_run [OF assms(2) refl, of q "unique_terms q" corpus "[]"]
  obtain index' where s: "for_each (bm25_doc (length corpus) (real cl / real (length corpus)) q (unique_terms q))
        corpus (index, []) = Inr (index', [] @ bm25_refs (shapes index) (unique_terms q) corpus)"
    and i: "shapes index' = shapes index"
      "fst ` set index' = fst ` set index \<union> (if corpus = [] then {} else set (unique_terms q))"
    by blast
  show ?thesis
    using s i assms(1)
    by (intro exI [of _ index']) (simp add: bm25_ranking_def Let_def)
qed

lemma unique_terms_fold:
  "set (fold (\<lambda>term u. if term \<in> set u then u else u @ [term]) xs u) = set u \<union> set xs"
  by (induction xs arbitrary: u) auto

lemma unique_terms_set: "set (unique_terms q) = fst ` set q"
  by (simp add: unique_terms_def unique_terms_fold)

section \<open>The loops of \<^verbatim>\<open>ql_ranking\<close>\<close>

lemma ql_weight_ok:
  assumes "map_of cqi t = Some c" and "0 < c" and "0 < cardC"
  shows "\<exists>w. ql_weight cqi cardC t fqi cardD = Inr w"
proof -
  have "0 < real c / real cardC"
    using assms(2,3) by simp
  then have "0 < real fqi + mue * (real c / real cardC)"
    by (simp add: mue_def add_nonneg_pos)
  moreover have "0 < real cardD + mue"
    by (simp add: mue_def add_nonneg_pos)
  ultimately have "0 < (real fqi + mue * (real c / real cardC)) / (real cardD + mue)"
    by (rule divide_pos_pos)
  then show ?thesis
    using assms by (simp add: ql_weight_def Let_def)
qed

lemma ql_posting_simp:
  "ql_posting cqi cardC docs term i (index, top100) =
     (case ql_weight cqi cardC term
             (if doc_id (deref index (term, i)) = sceneId docs then termCount (deref index (term, i)) else 0)
             (docLen (deref index (term, i))) of
        Inl e \<Rightarrow> Inl e
      | Inr w \<Rightarrow> Inr (set_score (term, i) (score (deref index (term, i)) + w) index,
                      top100 @ [(term, i)]))"
  by (simp add: ql_posting_def Let_def)

lemma ql_postings:
  assumes "js \<noteq> [] \<longrightarrow> (\<exists>c. map_of cqi t = Some c \<and> 0 < c) \<and> 0 < cardC"
    and "shapes index = sh" and "t \<in> fst ` set index"
  shows "\<exists>index'. for_each (ql_posting cqi cardC d t) js (index, top100) =
           Inr (index', top100 @ map (Pair t) js) \<and>
         shapes index' = sh \<and> fst ` set index' = fst ` set index"
  using assms
proof (induction js arbitrary: index top100)
  case Nil
  then show ?case by simp
next
  case (Cons i js)
  from Cons.prems(1) obtain c where c: "map_of cqi t = Some c" "0 < c" "0 < cardC"
    by auto
  let ?p = "deref index (t, i)"
  from ql_weight_ok [OF c] obtain w where
    w: "ql_weight cqi cardC t (if doc_id ?p = sceneId d then termCount ?p else 0) (docLen ?p) = Inr w"
    by blast
  let ?index = "set_score (t, i) (score ?p + w) index"
  have step: "ql_posting cqi cardC d t i (index, top100) = Inr (?index, top100 @ [(t, i)])"
    by (simp add: ql_posting_simp w)
  have js: "js \<noteq> [] \<longrightarrow> (\<exists>c. map_of cqi t = Some c \<and> 0 < c) \<and> 0 < cardC"
    using c by auto
  have "shapes ?index = sh" "t \<in> fst ` set ?index"
    using Cons.prems(2,3) by (simp_all add: keys_set_score)
  from Cons.IH [OF js this, of "top100 @ [(t, i)]"]
  obtain index' where r: "for_each (ql_posting cqi cardC d t) js (?index, top100 @ [(t, i)]) =
           Inr (index', (top100 @ [(t, i)]) @ map (Pair t) js)"
    and r2: "shapes index' = sh" "fst ` set index' = fst ` set ?index"
    by blast
  have "fst ` set index' = fst ` set index"
    using r2(2) Cons.prems(3) by (simp add: keys_set_score insert_absorb)
  with step r r2(1) show ?case
    by (intro exI [of _ index']) simp
qed

lemma ql_term_simp:
  "ql_term cqi cardC d t (index, top100) =
     for_each (ql_posting cqi cardC d t) [0..<length (getitem index t)] (touch t index, top100)"
  by (simp add: ql_term_def Let_def)

lemma ql_term_run:
  assumes "ql_safe cqi cardC sh" and "shapes index = sh"
  shows "\<exists>index'. ql_term cqi cardC d t (index, top100) =
           Inr (index', top100 @ map (Pair t) [0..<length (sh t)]) \<and>
         shapes index' = sh \<and> fst ` set index' = insert t (fst ` set index)"
proof -
  have len: "length (getitem index t) = length (sh t)"
    using assms(2) by (metis length_shapes)
  have ok: "[0..<length (sh t)] \<noteq> [] \<longrightarrow> (\<exists>c. map_of cqi t = Some c \<and> 0 < c) \<and> 0 < cardC"
    using assms(1) by (auto simp: ql_safe_def)
  have sh: "shapes (touch t index) = sh" and key: "t \<in> fst ` set (touch t index)"
    using assms(2) by (simp_all add: keys_touch)
  show ?thesis
    using ql_postings [where js = "[0..<length (sh t)]" and sh = sh and t = t
        and index = "touch t index" and cqi = cqi and cardC = cardC
        and d = d and ?top100.0 = top100, OF ok sh key]
    by (simp add: ql_term_simp len keys_touch)
qed

lemma ql_terms_run:
  assumes "ql_safe cqi cardC sh" and "shapes index = sh"
  shows "\<exists>index'. for_each (ql_term cqi cardC d) ts (index, top100) =
           Inr (index', top100 @ ql_refs_doc sh ts) \<and>
         shapes index' = sh \<and> fst ` set index' = fst ` set index \<union> set ts"
  using assms(2)
proof (induction ts arbitrary: index top100)
  case Nil
  then show ?case by (simp add: ql_refs_doc_def)
next
  case (Cons t ts)
  from ql_term_run [OF assms(1) Cons.prems, of d t top100]
  obtain index1 where s1: "ql_term cqi cardC d t (index, top100) =
           Inr (index1, top100 @ map (Pair t) [0..<length (sh t)])"
    and i1: "shapes index1 = sh" "fst ` set index1 = insert t (fst ` set index)"
    by blast
  from Cons.IH [OF i1(1), of "top100 @ map (Pair t) [0..<length (sh t)]"]
  obtain index' where s2: "for_each (ql_term cqi cardC d) ts
        (index1, top100 @ map (Pair t) [0..<length (sh t)]) =
           Inr (index', (top100 @ map (Pair t) [0..<length (sh t)]) @ ql_refs_doc sh ts)"
    and i2: "shapes index' = sh" "fst ` set index' = fst ` set index1 \<union> set ts"
    by blast
  show ?case
    using s1 s2 i1 i2
    by (intro exI [of _ index']) (simp add: ql_refs_doc_def)
qed

lemma ql_docs_run:
  assumes "ql_safe cqi cardC sh" and "shapes index = sh"
  shows "\<exists>index'. for_each (\<lambda>docs. for_each (ql_term cqi cardC docs) ts) corpus (index, top100) =
           Inr (index', top100 @ ql_refs sh ts corpus) \<and>
         shapes index' = sh \<and>
         fst ` set index' = fst ` set index \<union> (if corpus = [] then {} else set ts)"
  using assms(2)
proof (induction corpus arbitrary: index top100)
  case Nil
  then show ?case by (simp add: ql_refs_def)
next
  case (Cons d corpus)
  from ql_terms_run [OF assms(1) Cons.prems, of d ts top100]
  obtain index1 where s1: "for_each (ql_term cqi cardC d) ts (index, top100) =
        Inr (index1, top100 @ ql_refs_doc sh ts)"
    and i1: "shapes index1 = sh" "fst ` set index1 = fst ` set index \<union> set ts"
    by blast
  from Cons.IH [OF i1(1), of "top100 @ ql_refs_doc sh ts"]
  obtain index' where s2: "for_each (\<lambda>docs. for_each (ql_term cqi cardC docs) ts) corpus
        (index1, top100 @ ql_refs_doc sh ts) =
           Inr (index', (top100 @ ql_refs_doc sh ts) @ ql_refs sh ts corpus)"
    and i2: "shapes index' = sh"
      "fst ` set index' = fst ` set index1 \<union> (if corpus = [] then {} else set ts)"
    by blast
  show ?case
    using s1 s2 i1 i2
    by (intro exI [of _ index']) (auto simp: ql_refs_def)
qed

lemma ql_ranking_run:
  assumes "ql_safe cqi cl (shapes index)"
  shows "\<exists>index'. ql_ranking index q corpus cl cqi =
           Inr (top_k (map (deref index') (ql_refs (shapes index) (map fst q) corpus)), index') \<and>
         shapes index' = shapes index \<and>
         fst ` set index' = fst ` set index \<union> (if corpus = [] then {} else fst ` set q)"
proof -
  from ql_docs_run [OF assms refl, of "map fst q" corpus "[]"]
  obtain index' where s: "for_each (\<lambda>docs. for_each (ql_term cqi cl docs) (map fst q)) corpus (index, []) =
       Inr (index', [] @ ql_refs (shapes index) (map fst q) corpus)"
    and i: "shapes index' = shapes index"
      "fst ` set index' = fst ` set index \<union> (if corpus = [] then {} else set (map fst q))"
    by blast
  show ?thesis
    using s i
    by (intro exI [of _ index']) (simp add: ql_ranking_def Let_def)
qed

section \<open>Scoring against a built index\<close>

lemma shape_mk_posting [simp]: "shape (mk_posting n d t) = mk_posting n d t"
  by (simp add: shape_def mk_posting_def)

lemma built_shapes:
  assumes "build_index corpus = (index, corpus', cl, cqi)"
  shows "shapes index t = map (\<lambda>d. mk_posting (length corpus) d t) (filter (has_term t) corpus)"
  by (simp add: shapes_def build_index_getitem [OF assms])

lemma built_cl_pos:
  assumes "build_index corpus = (index, corpus', cl, cqi)" and "d \<in> set corpus" and "has_term t d"
  shows "0 < cl"
proof -
  have "length (split (text d)) \<le> sum_list (map (\<lambda>d. length (split (text d))) corpus)"
    using assms(2) by (simp add: member_le_sum_list)
  moreover have "0 < length (split (text d))"
    using assms(3) by (auto simp: has_term_def)
  ultimately have "0 < sum_list (map (\<lambda>d. length (split (text d))) corpus)"
    by linarith
  then show ?thesis
    by (simp add: build_index_length [OF assms(1)])
qed

lemma built_bm25_safe:
  assumes "build_index corpus = (index, corpus', cl, cqi)"
  shows "bm25_safe (length corpus) (real cl / real (length corpus)) (shapes index)"
  unfolding bm25_safe_def
proof (intro allI impI)
  fix t assume "shapes index t \<noteq> []"
  then obtain d where d: "d \<in> set corpus" "has_term t d"
    by (auto simp: built_shapes [OF assms] filter_empty_conv)
  then have "0 < cl" "corpus \<noteq> []"
    using built_cl_pos [OF assms] by auto
  then show "real cl / real (length corpus) \<noteq> 0 \<and> length (shapes index t) \<le> length corpus"
    by (simp add: built_shapes [OF assms])
qed

lemma built_ql_safe:
  assumes "build_index corpus = (index, corpus', cl, cqi)"
  shows "ql_safe cqi cl (shapes index)"
  unfolding ql_safe_def
proof (intro allI impI)
  fix t assume ne: "shapes index t \<noteq> []"
  then obtain d where d: "d \<in> set corpus" "has_term t d"
    by (auto simp: built_shapes [OF assms] filter_empty_conv)
  have cl: "0 < cl"
    using built_cl_pos [OF assms d] .
  have "t \<in> fst ` set cqi"
    using d by (auto simp: build_index_keys(2) [OF assms] has_term_def)
  then obtain c where c: "map_of cqi t = Some c"
    by (metis map_of_eq_None_iff not_Some_eq)
  then have "c = sum_list (map termCount (getitem index t))"
    using build_index_cqi [OF assms, of t] by (simp add: counter_get_def)
  moreover have "0 < length (positions_of t (split (text d)))"
    using d(2) by (simp add: has_term_def positions_of_empty_iff)
  moreover have "mk_posting (length corpus) d t \<in> set (getitem index t)"
    using d by (simp add: build_index_getitem [OF assms])
  ultimately have "0 < c"
  proof -
    have "termCount (mk_posting (length corpus) d t) \<in> set (map termCount (getitem index t))"
      using \<open>mk_posting (length corpus) d t \<in> set (getitem index t)\<close> by simp
    then have "termCount (mk_posting (length corpus) d t) \<le> sum_list (map termCount (getitem index t))"
      by (simp add: member_le_sum_list)
    moreover have "termCount (mk_posting (length corpus) d t) = length (positions_of t (split (text d)))"
      by (simp add: mk_posting_def)
    ultimately show ?thesis
      using \<open>c = sum_list (map termCount (getitem index t))\<close>
        \<open>0 < length (positions_of t (split (text d)))\<close>
      by linarith
  qed
  with c cl show "(\<exists>c. map_of cqi t = Some c \<and> 0 < c) \<and> 0 < cl"
    by simp
qed

lemma bm25_refs_set:
  "set (bm25_refs sh ts corpus) =
     {(t, i) | t i d. d \<in> set corpus \<and> t \<in> set ts \<and> i < length (sh t) \<and> doc_id (sh t ! i) = sceneId d}"
  by (auto simp: bm25_refs_def bm25_refs_doc_def matches_def)

lemma bm25_refs_doc_ids:
  assumes "shapes index' = sh"
  shows "doc_id ` deref index' ` set (bm25_refs sh ts corpus) =
     {sceneId d | d t. d \<in> set corpus \<and> t \<in> set ts \<and> sceneId d \<in> doc_id ` set (sh t)}"
proof -
  have f: "doc_id (deref index' (t, i)) = doc_id (sh t ! i)" if "i < length (sh t)" for t i
    using that deref_fields(1) [of i index' t] assms by (metis length_shapes)
  show ?thesis
  proof (intro set_eqI iffI)
    fix x assume "x \<in> doc_id ` deref index' ` set (bm25_refs sh ts corpus)"
    then obtain t i d where r: "d \<in> set corpus" "t \<in> set ts" "i < length (sh t)"
        "doc_id (sh t ! i) = sceneId d" and x: "x = doc_id (deref index' (t, i))"
      unfolding bm25_refs_set by auto
    from r(3,4) have "sceneId d \<in> doc_id ` set (sh t)"
      by (metis imageI nth_mem)
    with r x f [OF r(3)]
    show "x \<in> {sceneId d | d t. d \<in> set corpus \<and> t \<in> set ts \<and> sceneId d \<in> doc_id ` set (sh t)}"
      by auto
  next
    fix x assume "x \<in> {sceneId d | d t. d \<in> set corpus \<and> t \<in> set ts \<and> sceneId d \<in> doc_id ` set (sh t)}"
    then obtain d t p where r: "d \<in> set corpus" "t \<in> set ts" "p \<in> set (sh t)"
        "doc_id p = sceneId d" and x: "x = sceneId d"
      by auto
    from r(3) obtain i where i: "i < length (sh t)" "sh t ! i = p"
      by (auto simp: in_set_conv_nth)
    with r have "(t, i) \<in> set (bm25_refs sh ts corpus)"
      unfolding bm25_refs_set by auto
    moreover have "doc_id (deref index' (t, i)) = x"
      using f [OF i(1)] i(2) r(4) x by simp
    ultimately show "x \<in> doc_id ` deref index' ` set (bm25_refs sh ts corpus)"
      by (metis imageI)
  qed
qed

lemma built_doc_ids:
  assumes "build_index corpus = (index, corpus', cl, cqi)"
  shows "{sceneId d | d t. d \<in> set corpus \<and> t \<in> fst ` set q \<and> sceneId d \<in> doc_id ` set (shapes index t)} =
     sceneId ` {d \<in> set corpus. shares_term q d}"
  by (auto simp: built_shapes [OF assms] shares_term_def list_ex_iff mk_posting_def image_iff)

lemma top_k_set: "set (top_k xs) \<subseteq> set xs"
  unfolding top_k_def by (metis set_sort set_take_subset)

lemma top_k_set_all: "length xs \<le> 100 \<Longrightarrow> set (top_k xs) = set xs"
  by (simp add: top_k_def)

lemma top_k_le: "length (top_k xs) \<le> 100"
  by (simp add: top_k_def)

section \<open>Counting the entries of a document\<close>

lemma map_const: "(\<And>x. x \<in> set xs \<Longrightarrow> f x = c) \<Longrightarrow> map f xs = replicate (length xs) c"
  by (induction xs) simp_all

lemma filter_nth_upt: "map (nth xs) (filter (\<lambda>i. P (xs ! i)) [0..<length xs]) = filter P xs"
proof -
  have "filter P (map (nth xs) [0..<length xs]) = map (nth xs) (filter (\<lambda>i. P (xs ! i)) [0..<length xs])"
    by (simp add: filter_map comp_def)
  then show ?thesis by (simp add: map_nth)
qed

lemma length_matches: "length (matches sh d t) = length (filter (\<lambda>p. doc_id p = sceneId d) (sh t))"
  using filter_nth_upt [of "sh t" "\<lambda>p. doc_id p = sceneId d"]
  unfolding matches_def by (metis length_map)

lemma count_one:
  assumes "distinct (map g xs)" and "d \<in> set xs"
  shows "length (filter (\<lambda>x. g x = g d \<and> P x) xs) = (if P d then 1 else 0)"
  using assms
proof (induction xs)
  case Nil
  then show ?case by simp
next
  case (Cons x xs)
  show ?case
  proof (cases "x = d")
    case True
    then have "\<forall>y\<in>set xs. g y \<noteq> g d"
      using Cons.prems(1) by (metis distinct.simps(2) image_eqI list.simps(9) set_map)
    then have "filter (\<lambda>x. g x = g d \<and> P x) xs = []"
      by (simp add: filter_empty_conv)
    with True show ?thesis by simp
  next
    case False
    then have d: "d \<in> set xs" and "g x \<noteq> g d"
      using Cons.prems by auto
    with Cons.IH [OF _ d] Cons.prems(1) show ?thesis by simp
  qed
qed

lemma sum_one:
  assumes "distinct (map g xs)" and "d \<in> set xs"
  shows "sum_list (map (\<lambda>x. if g x = g d then k x else 0) xs) = (k d :: nat)"
  using assms
proof (induction xs)
  case Nil
  then show ?case by simp
next
  case (Cons x xs)
  show ?case
  proof (cases "x = d")
    case True
    then have "\<forall>y\<in>set xs. g y \<noteq> g d"
      using Cons.prems(1) by (metis distinct.simps(2) image_eqI list.simps(9) set_map)
    then have "sum_list (map (\<lambda>x. if g x = g d then k x else 0) xs) = 0"
      by (simp add: sum_list_eq_0_iff)
    with True show ?thesis by simp
  next
    case False
    then have d: "d \<in> set xs" and "g x \<noteq> g d"
      using Cons.prems by auto
    with Cons.IH [OF _ d] Cons.prems(1) show ?thesis by simp
  qed
qed

lemma length_filter_concat_replicate:
  "length (filter (\<lambda>x. x = c) (concat (map (\<lambda>y. replicate (k y) (g y)) ys))) =
     sum_list (map (\<lambda>y. if g y = c then k y else 0) ys)"
  by (induction ys) auto

lemma sum_indicator: "sum_list (map (\<lambda>t. if P t then 1 else 0) ts) = length (filter P ts)"
  by (induction ts) simp_all

lemma built_matches:
  assumes "build_index corpus = (index, corpus', cl, cqi)"
    and "distinct (map sceneId corpus)" and "d \<in> set corpus"
  shows "length (matches (shapes index) d t) = (if has_term t d then 1 else 0)"
proof -
  have "filter (\<lambda>p. doc_id p = sceneId d) (shapes index t) =
      map (\<lambda>d. mk_posting (length corpus) d t) (filter (\<lambda>x. sceneId x = sceneId d \<and> has_term t x) corpus)"
    by (simp add: built_shapes [OF assms(1)] filter_map comp_def mk_posting_def conj_commute)
  then show ?thesis
    using count_one [OF assms(2,3), of "has_term t"] by (simp add: length_matches)
qed

lemma bm25_refs_doc_length:
  "length (bm25_refs_doc sh ts d) = sum_list (map (\<lambda>t. length (matches sh d t)) ts)"
  by (simp add: bm25_refs_doc_def length_concat comp_def)

lemma bm25_refs_doc_id:
  assumes "shapes index' = sh" and "r \<in> set (bm25_refs_doc sh ts d)"
  shows "doc_id (deref index' r) = sceneId d"
proof -
  from assms(2) obtain t i where r: "r = (t, i)" "i < length (sh t)" "doc_id (sh t ! i) = sceneId d"
    by (auto simp: bm25_refs_doc_def matches_def)
  then have "i < length (getitem index' t)"
    using assms(1) by (metis length_shapes)
  from deref_fields(1) [OF this] r assms(1) show ?thesis by simp
qed

lemma bm25_entry_ids:
  assumes "shapes index' = sh"
  shows "map doc_id (map (deref index') (bm25_refs sh ts corpus)) =
     concat (map (\<lambda>d. replicate (length (bm25_refs_doc sh ts d)) (sceneId d)) corpus)"
proof -
  have "map (\<lambda>r. doc_id (deref index' r)) (bm25_refs_doc sh ts d) =
      replicate (length (bm25_refs_doc sh ts d)) (sceneId d)" for d
    by (rule map_const) (rule bm25_refs_doc_id [OF assms])
  then show ?thesis
    by (simp add: bm25_refs_def map_concat comp_def)
qed

lemma bm25_entry_count:
  assumes "build_index corpus = (index, corpus', cl, cqi)"
    and "distinct (map sceneId corpus)" and "d \<in> set corpus" and "shapes index' = shapes index"
  shows "entries_for d (map (deref index') (bm25_refs (shapes index) ts corpus)) =
     length (filter (\<lambda>t. has_term t d) ts)"
proof -
  let ?ps = "map (deref index') (bm25_refs (shapes index) ts corpus)"
  have "entries_for d ?ps = length (filter (\<lambda>x. x = sceneId d) (map doc_id ?ps))"
    unfolding entries_for_def filter_map comp_def by simp
  also have "\<dots> = sum_list (map (\<lambda>y. if sceneId y = sceneId d then length (bm25_refs_doc (shapes index) ts y) else 0) corpus)"
    unfolding bm25_entry_ids [OF assms(4)] by (rule length_filter_concat_replicate)
  also have "\<dots> = length (bm25_refs_doc (shapes index) ts d)"
    by (rule sum_one [OF assms(2,3)])
  also have "\<dots> = sum_list (map (\<lambda>t. if has_term t d then 1 else 0) ts)"
    by (simp add: bm25_refs_doc_length built_matches [OF assms(1,2,3)])
  also have "\<dots> = length (filter (\<lambda>t. has_term t d) ts)"
    by (rule sum_indicator)
  finally show ?thesis .
qed

lemma entries_for_top_k: "entries_for d (top_k ps) \<le> entries_for d ps"
proof -
  have "mset (filter (\<lambda>p. doc_id p = sceneId d) (top_k ps)) \<subseteq># mset (filter (\<lambda>p. doc_id p = sceneId d) ps)"
    using top_k_mset [of ps]
    by (metis mset_filter multiset_filter_mono mset_subset_eq_add_left)
  then show ?thesis
    unfolding entries_for_def by (metis size_mset size_mset_mono)
qed

lemma entries_for_top_k_all: "length ps \<le> 100 \<Longrightarrow> entries_for d (top_k ps) = entries_for d ps"
proof -
  assume "length ps \<le> 100"
  then have "mset (top_k ps) = mset ps"
    by (simp add: top_k_all)
  then have "mset (filter (\<lambda>p. doc_id p = sceneId d) (top_k ps)) = mset (filter (\<lambda>p. doc_id p = sceneId d) ps)"
    by (simp only: mset_filter)
  then show ?thesis
    unfolding entries_for_def by (metis size_mset)
qed

lemma shared_terms_empty: "shared_terms q d = [] \<longleftrightarrow> \<not> shares_term q d"
  by (auto simp: shared_terms_def shares_term_def filter_empty_conv list_ex_iff unique_terms_set)

section \<open>Evaluation of the examples\<close>

lemmas build_defs = build_index_def build_doc_def split_def is_space_def doc_index_step_def
        enumerate_eq_zip add_posting_def append_at_def getitem_def upt_rec

lemmas run_defs = getitem_def touch_def deref_def set_score_def top_k_def
  bm25_posting_def bm25_term_def bm25_doc_def unique_terms_def bm25_ranking_def
  ql_weight_def ql_posting_def ql_term_def ql_ranking_def counter_get_def
  mue_def log_def

lemma Counter_a: "Counter [''a''] = [(''a'', 1)]"
  by (simp add: Counter_def counter_get_def)

lemma Counter_ab: "Counter [''a'', ''b''] = [(''a'', 1), (''b'', 1)]"
  by (simp add: Counter_def counter_get_def)

lemma Counter_cat: "Counter [''cat''] = [(''cat'', 1)]"
  by (simp add: Counter_def counter_get_def)

lemma Counter_cat_zebra: "Counter [''cat'', ''zebra''] = [(''cat'', 1), (''zebra'', 1)]"
  by (simp add: Counter_def counter_get_def)

lemma ab_built: "build_index ab_corpus = (ab_index 0 0, ab_corpus, 2, [(''a'', 1), (''b'', 1)])"
  by (simp add: ab_corpus_def ab_index_def build_defs)

lemma two_built: "build_index two_corpus = (two_index 0, two_corpus, 2, [(''a'', 1), (''b'', 1)])"
  by (simp add: two_corpus_def two_index_def build_defs)

lemma aa_built: "build_index aa_corpus = (aa_index 0 0, aa_corpus, 4, [(''a'', 3), (''b'', 1)])"
  by (simp add: aa_corpus_def aa_index_def build_defs)

lemma cat_built: "build_index cat_corpus = (cat_index, cat_corpus, 6, cat_cqi)"
  by (simp add: cat_corpus_def cat_index_def cat_cqi_def build_defs)

lemma cat_ne: "cat_corpus \<noteq> []"
  by (simp add: cat_corpus_def)

lemma five_built: "build_index five_corpus = (five_index, five_corpus, 10, [(''a'', 3), (''b'', 7)])"
  by (simp add: five_corpus_def five_index_def build_defs)

lemma corpus101_ids: "distinct (map sceneId corpus101)" "length corpus101 = 101"
proof -
  have "inj (\<lambda>i. CHR ''d'' # replicate i (CHR ''x''))"
    by (rule injI) (metis length_replicate list.inject)
  then show "distinct (map sceneId corpus101)"
    by (simp add: corpus101_def comp_def distinct_map inj_on_def)
  show "length corpus101 = 101"
    by (simp add: corpus101_def)
qed

section \<open>The documents of a BM25 result\<close>

text \<open>
  C3, as amended. For every non-empty corpus with distinct document identifiers and its
  built index, and every query, \<^verbatim>\<open>bm25_ranking\<close> returns. Before the truncation,
  \<^verbatim>\<open>top100\<close> holds exactly one scored entry for every document that shares exactly one
  term with the query, and no entry at all for any document that contains none of the
  query terms; every entry belongs to a document that shares a term with the query. After
  the truncation to 100 entries a document that contains none of the query terms still has
  no entry, and a document that shares exactly one term still has exactly one entry when
  at most 100 entries were produced. The number of entries of a document that shares
  several terms with the query is not part of the statement.
\<close>

theorem bm25_result_documents:
  assumes "build_index corpus = (index, corpus', cl, cqi)" and "corpus \<noteq> []"
    and "distinct (map sceneId corpus)"
  shows "\<exists>top100 index'.
     for_each (bm25_doc (length corpus) (real cl / real (length corpus)) q (unique_terms q))
       corpus (index, []) = Inr (index', top100) \<and>
     bm25_ranking index q corpus cl = Inr (top_k (map (deref index') top100), index') \<and>
     (\<forall>d\<in>set corpus. \<not> shares_term q d \<longrightarrow>
        entries_for d (map (deref index') top100) = 0 \<and>
        entries_for d (top_k (map (deref index') top100)) = 0) \<and>
     (\<forall>d\<in>set corpus. length (shared_terms q d) = 1 \<longrightarrow>
        entries_for d (map (deref index') top100) = 1) \<and>
     (length top100 \<le> 100 \<longrightarrow>
        (\<forall>d\<in>set corpus. length (shared_terms q d) = 1 \<longrightarrow>
           entries_for d (top_k (map (deref index') top100)) = 1)) \<and>
     doc_id ` set (map (deref index') top100) \<subseteq> sceneId ` {d \<in> set corpus. shares_term q d} \<and>
     doc_id ` set (top_k (map (deref index') top100)) \<subseteq> sceneId ` {d \<in> set corpus. shares_term q d}"
proof -
  let ?refs = "bm25_refs (shapes index) (unique_terms q) corpus"
  from bm25_ranking_run [OF assms(2) built_bm25_safe [OF assms(1)], of q]
  obtain index' where r: "for_each (bm25_doc (length corpus) (real cl / real (length corpus)) q (unique_terms q))
             corpus (index, []) = Inr (index', ?refs)"
      "bm25_ranking index q corpus cl = Inr (top_k (map (deref index') ?refs), index')"
    and sh: "shapes index' = shapes index"
    by blast
  let ?ps = "map (deref index') ?refs"
  have count: "entries_for d ?ps = length (shared_terms q d)" if "d \<in> set corpus" for d
    unfolding shared_terms_def by (rule bm25_entry_count [OF assms(1,3) that sh])
  have zero: "\<forall>d\<in>set corpus. \<not> shares_term q d \<longrightarrow>
        entries_for d ?ps = 0 \<and> entries_for d (top_k ?ps) = 0"
  proof (intro ballI impI)
    fix d assume d: "d \<in> set corpus" "\<not> shares_term q d"
    then have "entries_for d ?ps = 0"
      using count [OF d(1)] shared_terms_empty [of q d] by simp
    moreover have "entries_for d (top_k ?ps) \<le> entries_for d ?ps"
      by (rule entries_for_top_k)
    ultimately show "entries_for d ?ps = 0 \<and> entries_for d (top_k ?ps) = 0"
      by simp
  qed
  have one: "\<forall>d\<in>set corpus. length (shared_terms q d) = 1 \<longrightarrow> entries_for d ?ps = 1"
    using count by simp
  have one': "length ?refs \<le> 100 \<longrightarrow>
        (\<forall>d\<in>set corpus. length (shared_terms q d) = 1 \<longrightarrow> entries_for d (top_k ?ps) = 1)"
    using count by (simp add: entries_for_top_k_all)
  have ids: "doc_id ` set ?ps \<subseteq> sceneId ` {d \<in> set corpus. shares_term q d}"
    using bm25_refs_doc_ids [OF sh, of "unique_terms q" corpus] built_doc_ids [OF assms(1), of q]
    by (simp add: unique_terms_set)
  have ids': "doc_id ` set (top_k ?ps) \<subseteq> sceneId ` {d \<in> set corpus. shares_term q d}"
    using top_k_set [of ?ps] ids by blast
  show ?thesis
    using r zero one one' ids ids'
    by (intro exI [of _ ?refs] exI [of _ index'] conjI)
qed

theorem bm25_result_documents_witness:
  "build_index cat_corpus = (cat_index, cat_corpus, 6, cat_cqi) \<and> cat_corpus \<noteq> [] \<and>
   distinct (map sceneId cat_corpus) \<and>
   bm25_ranking cat_index (Counter [''cat'']) cat_corpus 6 =
     Inr ([\<lparr>doc_id = ''doc1'', positions = [1], termCount = 1, docLen = 3, score = 0, N = 2\<rparr>], cat_index) \<and>
   shared_terms (Counter [''cat'']) \<lparr>sceneId = ''doc1'', text = ''the cat sat''\<rparr> = [''cat''] \<and>
   \<not> shares_term (Counter [''cat'']) \<lparr>sceneId = ''doc2'', text = ''the dog sat''\<rparr> \<and>
   entries_for \<lparr>sceneId = ''doc1'', text = ''the cat sat''\<rparr>
     [\<lparr>doc_id = ''doc1'', positions = [1], termCount = 1, docLen = 3, score = 0, N = 2\<rparr>] = 1 \<and>
   entries_for \<lparr>sceneId = ''doc2'', text = ''the dog sat''\<rparr>
     [\<lparr>doc_id = ''doc1'', positions = [1], termCount = 1, docLen = 3, score = 0, N = 2\<rparr>] = 0"
proof -
  have dist: "distinct (map sceneId cat_corpus)"
    by (simp add: cat_corpus_def)
  have e: "bm25_ranking cat_index (Counter [''cat'']) cat_corpus 6 =
     Inr ([\<lparr>doc_id = ''doc1'', positions = [1], termCount = 1, docLen = 3, score = 0, N = 2\<rparr>], cat_index)"
    by (simp add: Counter_cat)
      (simp add: cat_corpus_def cat_index_def run_defs Let_def bm25_weight_def k1_def k2_def b_def)
  have s1: "shared_terms (Counter [''cat'']) \<lparr>sceneId = ''doc1'', text = ''the cat sat''\<rparr> = [''cat'']"
    by (simp add: shared_terms_def unique_terms_def Counter_cat has_term_def split_def is_space_def)
  have s2: "\<not> shares_term (Counter [''cat'']) \<lparr>sceneId = ''doc2'', text = ''the dog sat''\<rparr>"
    by (simp add: shares_term_def Counter_cat has_term_def split_def is_space_def)
  have d2: "\<lparr>sceneId = ''doc2'', text = ''the dog sat''\<rparr> \<in> set cat_corpus"
    by (simp add: cat_corpus_def)
  from bm25_result_documents [OF cat_built cat_ne dist, of "Counter [''cat'']"]
  obtain top100 index' where
    r: "bm25_ranking cat_index (Counter [''cat'']) cat_corpus 6 = Inr (top_k (map (deref index') top100), index')"
    and z: "\<forall>d\<in>set cat_corpus. \<not> shares_term (Counter [''cat'']) d \<longrightarrow>
        entries_for d (map (deref index') top100) = 0 \<and>
        entries_for d (top_k (map (deref index') top100)) = 0"
    by (elim exE conjE) (rule that, assumption+)
  from r e have "top_k (map (deref index') top100) =
      [\<lparr>doc_id = ''doc1'', positions = [1], termCount = 1, docLen = 3, score = 0, N = 2\<rparr>]"
    by simp
  with z d2 s2 have z2: "entries_for \<lparr>sceneId = ''doc2'', text = ''the dog sat''\<rparr>
     [\<lparr>doc_id = ''doc1'', positions = [1], termCount = 1, docLen = 3, score = 0, N = 2\<rparr>] = 0"
    by metis
  have o1: "entries_for \<lparr>sceneId = ''doc1'', text = ''the cat sat''\<rparr>
     [\<lparr>doc_id = ''doc1'', positions = [1], termCount = 1, docLen = 3, score = 0, N = 2\<rparr>] = 1"
    by (simp add: entries_for_def)
  from cat_built cat_ne dist e s1 s2 o1 z2 show ?thesis
    by (intro conjI)
qed

text \<open>
  C3 as stated fails after the truncation: in a corpus of 101 documents that all contain
  the query term, the result has at most 100 entries, so one of the documents that share
  a term with the query has no entry.
\<close>

theorem bm25_truncation_drops_documents:
  "list_all (shares_term (Counter [''a''])) corpus101 \<and> \<not> isl result101 \<and>
   \<not> sceneId ` set corpus101 \<subseteq> doc_id ` set (fst (projr result101))"
proof -
  have sh: "list_all (shares_term (Counter [''a''])) corpus101"
    by (simp add: corpus101_def list_all_iff shares_term_def has_term_def Counter_def
        counter_get_def split_def is_space_def)
  have b: "build_index corpus101 =
      (fst (build_index corpus101), corpus101, fst (snd (snd (build_index corpus101))),
       snd (snd (snd (build_index corpus101))))"
    by (simp add: build_index_eq)
  have ne: "corpus101 \<noteq> []"
    using corpus101_ids(2) by auto
  from bm25_ranking_run [OF ne built_bm25_safe [OF b], of "Counter [''a'']"]
  obtain res index' where r: "result101 = Inr (top_k res, index')"
    unfolding result101_def by blast
  have "card (doc_id ` set (top_k res)) \<le> 100"
    using card_image_le [of "set (top_k res)" doc_id] card_length [of "top_k res"] top_k_le [of res]
    by simp
  moreover have "card (sceneId ` set corpus101) = 101"
    using distinct_card [OF corpus101_ids(1)] corpus101_ids(2) by simp
  ultimately have "\<not> sceneId ` set corpus101 \<subseteq> doc_id ` set (top_k res)"
    using card_mono [of "doc_id ` set (top_k res)" "sceneId ` set corpus101"] by auto
  with sh show ?thesis unfolding r by simp
qed

section \<open>Monotonicity of the BM25 score in the term frequency\<close>

lemma bm25_weight_mono:
  assumes "0 < avgdl" and "2 * ni < n" and "0 < qfi" and "f2 < f1"
  shows "bm25_weight n avgdl ni qfi f2 dl < bm25_weight n avgdl ni qfi f1 dl"
proof -
  define K where "K = k1 * ((1 - b) + b * (real dl / avgdl))"
  define idf where "idf = ln ((real n - real ni + 0.5) / (real ni + 0.5))"
  define third where "third = ((k2 + 1) * real qfi) / (k2 + real qfi)"
  have K: "0 < K"
    using assms(1) by (simp add: K_def k1_def b_def add_pos_nonneg)
  have "real ni + 0.5 < real n - real ni + 0.5"
    using assms(2) by simp
  then have "1 < (real n - real ni + 0.5) / (real ni + 0.5)"
    by (simp add: less_divide_eq)
  then have idf: "0 < idf"
    unfolding idf_def by (rule ln_gt_zero)
  have third: "0 < third"
    using assms(3) by (simp add: third_def k2_def)
  have pos: "0 < K + real f1" "0 < K + real f2"
    using K by (simp_all add: add_pos_nonneg)
  have "real f2 * (K + real f1) < real f1 * (K + real f2)"
    using assms(4) K by (simp add: algebra_simps)
  then have "real f2 / (K + real f2) < real f1 / (K + real f1)"
    using pos by (simp add: divide_less_eq less_divide_eq mult.commute)
  moreover have "0 < k1 + 1"
    by (simp add: k1_def)
  ultimately have "(k1 + 1) * (real f2 / (K + real f2)) < (k1 + 1) * (real f1 / (K + real f1))"
    by (rule mult_strict_left_mono)
  then have "((k1 + 1) * real f2) / (K + real f2) < ((k1 + 1) * real f1) / (K + real f1)"
    by (simp only: times_divide_eq_right)
  then have "idf * (((k1 + 1) * real f2) / (K + real f2)) <
      idf * (((k1 + 1) * real f1) / (K + real f1))"
    using idf by (rule mult_strict_left_mono)
  then have "idf * (((k1 + 1) * real f2) / (K + real f2)) * third <
      idf * (((k1 + 1) * real f1) / (K + real f1)) * third"
    using third by (rule mult_strict_right_mono)
  then show ?thesis
    by (simp add: bm25_weight_def Let_def K_def idf_def third_def)
qed

text \<open>
  C8, as amended. The BM25 score of a document is the value of \<^verbatim>\<open>score\<close> when the loop over
  the query terms ends (lines 110 to 125). Take a non-empty list of query terms, each with
  a positive query frequency and each occurring in fewer than half of the documents
  (\<open>2 * ni < N\<close>, so that its idf is positive), a positive \<open>avgdl\<close>, and two documents that
  have exactly one posting for every query term, with the same document length (so the
  same \<open>K\<close>) and a strictly higher term frequency for the first document. Then the loop
  returns for both documents, and the score of the first is strictly higher.
\<close>

theorem bm25_score_monotone:
  assumes "shapes index1 = sh" and "shapes index2 = sh" and "0 < avgdl" and "ts \<noteq> []"
    and "\<forall>t\<in>set ts. 0 < counter_get q t \<and> 2 * length (sh t) < n \<and>
           (\<exists>i1 i2. matches sh d1 t = [i1] \<and> matches sh d2 t = [i2] \<and>
              docLen (sh t ! i1) = docLen (sh t ! i2) \<and>
              termCount (sh t ! i2) < termCount (sh t ! i1))"
  shows "\<exists>index1' top1 s1 index2' top2 s2.
     for_each (bm25_term n avgdl q d1) ts (index1, top100, 0) = Inr (index1', top1, s1) \<and>
     for_each (bm25_term n avgdl q d2) ts (index2, top100', 0) = Inr (index2', top2, s2) \<and>
     s2 < s1"
proof -
  have ok: "\<forall>t\<in>set ts. sh t \<noteq> [] \<longrightarrow> avgdl \<noteq> 0 \<and> length (sh t) \<le> n"
    using assms(3,5) by auto
  from bm25_terms_run [OF ok assms(1), of q d1 top100 0]
  obtain index1' where r1: "for_each (bm25_term n avgdl q d1) ts (index1, top100, 0) =
      Inr (index1', top100 @ bm25_refs_doc sh ts d1, 0 + bm25_score_doc n avgdl q sh ts d1)"
    by blast
  from bm25_terms_run [OF ok assms(2), of q d2 top100' 0]
  obtain index2' where r2: "for_each (bm25_term n avgdl q d2) ts (index2, top100', 0) =
      Inr (index2', top100' @ bm25_refs_doc sh ts d2, 0 + bm25_score_doc n avgdl q sh ts d2)"
    by blast
  have "bm25_sum_term n avgdl q sh d2 t < bm25_sum_term n avgdl q sh d1 t" if "t \<in> set ts" for t
  proof -
    from assms(5) that obtain i1 i2 where m: "matches sh d1 t = [i1]" "matches sh d2 t = [i2]"
        "docLen (sh t ! i1) = docLen (sh t ! i2)" "termCount (sh t ! i2) < termCount (sh t ! i1)"
      and c: "0 < counter_get q t" "2 * length (sh t) < n"
      by blast
    from bm25_weight_mono [OF assms(3) c(2) c(1) m(4), of "docLen (sh t ! i2)"] m(1,2,3)
    show ?thesis by (simp add: bm25_sum_term_def)
  qed
  with assms(4) have "bm25_score_doc n avgdl q sh ts d2 < bm25_score_doc n avgdl q sh ts d1"
    unfolding bm25_score_doc_def by (intro sum_list_strict_mono) simp_all
  with r1 r2 show ?thesis by simp
qed

theorem bm25_score_monotone_witness:
  "build_index five_corpus = (five_index, five_corpus, 10, [(''a'', 3), (''b'', 7)]) \<and>
   matches (shapes five_index) \<lparr>sceneId = ''d1'', text = ''a a''\<rparr> ''a'' = [0] \<and>
   matches (shapes five_index) \<lparr>sceneId = ''d2'', text = ''a b''\<rparr> ''a'' = [1] \<and>
   (\<exists>index1' top1 s1 index2' top2 s2.
      for_each (bm25_term 5 (10 / 5) (Counter [''a'']) \<lparr>sceneId = ''d1'', text = ''a a''\<rparr>) [''a'']
        (five_index, [], 0) = Inr (index1', top1, s1) \<and>
      for_each (bm25_term 5 (10 / 5) (Counter [''a'']) \<lparr>sceneId = ''d2'', text = ''a b''\<rparr>) [''a'']
        (five_index, [], 0) = Inr (index2', top2, s2) \<and>
      s2 < s1)"
proof -
  have m1: "matches (shapes five_index) \<lparr>sceneId = ''d1'', text = ''a a''\<rparr> ''a'' = [0]"
    and m2: "matches (shapes five_index) \<lparr>sceneId = ''d2'', text = ''a b''\<rparr> ''a'' = [1]"
    by (simp_all add: matches_def shapes_def shape_def five_index_def getitem_def upt_rec)
  have h: "\<forall>t\<in>set [''a'']. 0 < counter_get (Counter [''a'']) t \<and> 2 * length (shapes five_index t) < 5 \<and>
           (\<exists>i1 i2. matches (shapes five_index) \<lparr>sceneId = ''d1'', text = ''a a''\<rparr> t = [i1] \<and>
              matches (shapes five_index) \<lparr>sceneId = ''d2'', text = ''a b''\<rparr> t = [i2] \<and>
              docLen (shapes five_index t ! i1) = docLen (shapes five_index t ! i2) \<and>
              termCount (shapes five_index t ! i2) < termCount (shapes five_index t ! i1))"
    using m1 m2
    by (simp add: Counter_a counter_get_def) (simp add: shapes_def shape_def five_index_def getitem_def)
  have a: "(0 :: real) < 10 / 5" and t: "[''a''] \<noteq> []"
    by simp_all
  from bm25_score_monotone [OF refl refl a t h, of "[]" "[]"] five_built m1 m2
  show ?thesis by (intro conjI)
qed

text \<open>
  C8 as stated fails when the idf is negative: in a corpus of two documents of the same
  length that both contain the query term, the document with the higher term frequency
  gets the lower score and is ranked second.
\<close>

lemma aa_weights:
  "bm25_weight 2 (4 / 2) 2 1 2 2 = ln (1 / 5) * (28 / 19)" "bm25_weight 2 (4 / 2) 2 1 1 2 = ln (1 / 5)"
  by (simp_all add: bm25_weight_def k1_def k2_def b_def)

lemma aa_less: "bm25_weight 2 (4 / 2) 2 1 2 2 < bm25_weight 2 (4 / 2) 2 1 1 2"
proof -
  have "ln (1 / 5 :: real) < 0" by simp
  then have "ln (1 / 5 :: real) * (28 / 19) < ln (1 / 5) * 1"
    by (intro mult_strict_left_mono_neg) simp_all
  then show ?thesis unfolding aa_weights by simp
qed

theorem bm25_higher_tf_scores_lower:
  "build_index aa_corpus = (aa_index 0 0, aa_corpus, 4, [(''a'', 3), (''b'', 1)]) \<and>
   bm25_ranking (aa_index 0 0) (Counter [''a'']) aa_corpus 4 =
     Inr ([\<lparr>doc_id = ''d2'', positions = [0], termCount = 1, docLen = 2,
             score = bm25_weight 2 (4 / 2) 2 1 1 2, N = 2\<rparr>,
           \<lparr>doc_id = ''d1'', positions = [0, 1], termCount = 2, docLen = 2,
             score = bm25_weight 2 (4 / 2) 2 1 2 2, N = 2\<rparr>],
          aa_index (bm25_weight 2 (4 / 2) 2 1 2 2) (bm25_weight 2 (4 / 2) 2 1 1 2)) \<and>
   bm25_weight 2 (4 / 2) 2 1 2 2 < bm25_weight 2 (4 / 2) 2 1 1 2"
  using aa_less
  by (simp add: aa_built Counter_a)
    (simp add: aa_corpus_def aa_index_def run_defs Let_def eval_nat_numeral)

section \<open>Query terms that occur nowhere in the corpus\<close>

lemma view_eq: "view (i1, x1) = view (i2, x2) \<longleftrightarrow> getitem i1 = getitem i2 \<and> x1 = x2"
  by (simp add: view_def)

lemma for_each_view:
  assumes "\<And>x s1 s2. v s1 = v s2 \<Longrightarrow> map_sum id v (body x s1) = map_sum id v (body x s2)"
  shows "v s1 = v s2 \<Longrightarrow> map_sum id v (for_each body xs s1) = map_sum id v (for_each body xs s2)"
proof (induction xs arbitrary: s1 s2)
  case Nil
  then show ?case by simp
next
  case (Cons x xs)
  from assms [OF Cons.prems, of x] show ?case
  proof (cases "body x s1")
    case (Inl e)
    with assms [OF Cons.prems, of x] have "body x s2 = Inl e"
      by (cases "body x s2") simp_all
    with Inl show ?thesis by simp
  next
    case (Inr s1')
    with assms [OF Cons.prems, of x] obtain s2' where s2: "body x s2 = Inr s2'" "v s1' = v s2'"
      by (cases "body x s2") simp_all
    with Inr Cons.IH [OF s2(2)] show ?thesis by simp
  qed
qed

lemma view_results:
  assumes "map_sum id view r1 = map_sum id view r2"
  shows "(\<exists>e. r1 = Inl e \<and> r2 = Inl e) \<or>
         (\<exists>i1 i2 x. r1 = Inr (i1, x) \<and> r2 = Inr (i2, x) \<and> getitem i1 = getitem i2)"
proof (cases r1)
  case (Inl e)
  with assms show ?thesis by (cases r2) simp_all
next
  case (Inr s1)
  with assms obtain s2 where "r2 = Inr s2" "view s1 = view s2"
    by (cases r2) simp_all
  with Inr show ?thesis
    by (cases s1; cases s2) (simp add: view_eq)
qed

lemma deref_cong: "getitem i1 = getitem i2 \<Longrightarrow> deref i1 r = deref i2 r"
  by (simp add: deref_def)

lemma getitem_set_score_cong:
  "getitem i1 = getitem i2 \<Longrightarrow> getitem (set_score (t, i) s i1) = getitem (set_score (t, i) s i2)"
  by (simp add: fun_eq_iff getitem_set_score)

lemma getitem_touch_cong:
  "getitem i1 = getitem i2 \<Longrightarrow> getitem (touch t i1) = getitem (touch t i2)"
  by (simp add: fun_eq_iff)

lemma bm25_posting_view:
  assumes "view s1 = view s2"
  shows "map_sum id view (bm25_posting n avgdl ni qfi d t i s1) =
         map_sum id view (bm25_posting n avgdl ni qfi d t i s2)"
proof -
  obtain i1 top100 sc where s1: "s1 = (i1, top100, sc)" by (cases s1)
  obtain i2 top2 sc2 where s2: "s2 = (i2, top2, sc2)" by (cases s2)
  from assms s1 s2 have g: "getitem i1 = getitem i2" and e: "top2 = top100" "sc2 = sc"
    by (simp_all add: view_eq)
  show ?thesis
    unfolding s1 s2 e bm25_posting_simp deref_cong [OF g]
    by (simp add: view_eq getitem_set_score_cong [OF g] g)
qed

lemma bm25_term_view:
  assumes "view s1 = view s2"
  shows "map_sum id view (bm25_term n avgdl q d t s1) = map_sum id view (bm25_term n avgdl q d t s2)"
proof -
  obtain i1 top100 sc where s1: "s1 = (i1, top100, sc)" by (cases s1)
  obtain i2 top2 sc2 where s2: "s2 = (i2, top2, sc2)" by (cases s2)
  from assms s1 s2 have g: "getitem i1 = getitem i2" and e: "top2 = top100" "sc2 = sc"
    by (simp_all add: view_eq)
  have "view (touch t i1, top100, sc) = view (touch t i2, top100, sc)"
    using g by (simp add: view_eq fun_eq_iff)
  from for_each_view [where v = view, OF bm25_posting_view this]
  show ?thesis
    unfolding s1 s2 e bm25_term_simp g .
qed

lemma bm25_term_counter:
  "counter_get q' t = counter_get q t \<Longrightarrow> bm25_term n avgdl q' d t = bm25_term n avgdl q d t"
  by (simp add: bm25_term_def fun_eq_iff)

lemma bm25_term_unknown:
  "getitem index t = [] \<Longrightarrow> bm25_term n avgdl q d t (index, top100, sc) = Inr (touch t index, top100, sc)"
  by (simp add: bm25_term_simp)

lemma bm25_terms_skip:
  assumes "bm25_safe n avgdl sh"
    and "\<forall>t\<in>set ts. sh t \<noteq> [] \<longrightarrow> counter_get q' t = counter_get q t"
    and "shapes i1 = sh" and "getitem i1 = getitem i2"
  shows "map_sum id view (for_each (bm25_term n avgdl q d) ts (i1, top100, sc)) =
         map_sum id view (for_each (bm25_term n avgdl q' d) (filter (\<lambda>t. sh t \<noteq> []) ts) (i2, top100, sc))"
  using assms(2-)
proof (induction ts arbitrary: i1 i2 top100 sc)
  case Nil
  then show ?case by (simp add: view_eq)
next
  case (Cons t ts)
  have q: "\<forall>t\<in>set ts. sh t \<noteq> [] \<longrightarrow> counter_get q' t = counter_get q t"
    using Cons.prems(1) by simp
  show ?case
  proof (cases "sh t = []")
    case True
    then have "getitem i1 t = []"
      using Cons.prems(2) by (metis length_0_conv length_shapes)
    then have step: "bm25_term n avgdl q d t (i1, top100, sc) = Inr (touch t i1, top100, sc)"
      by (rule bm25_term_unknown)
    have "shapes (touch t i1) = sh" "getitem (touch t i1) = getitem i2"
      using Cons.prems(2,3) by (simp_all add: fun_eq_iff)
    from Cons.IH [OF q this, of top100 sc] step True show ?thesis by simp
  next
    case False
    then have "counter_get q' t = counter_get q t"
      using Cons.prems(1) by simp
    then have c: "bm25_term n avgdl q' d t = bm25_term n avgdl q d t"
      by (rule bm25_term_counter)
    have "sh t \<noteq> [] \<longrightarrow> avgdl \<noteq> 0 \<and> length (sh t) \<le> n"
      using assms(1) by (simp add: bm25_safe_def)
    from bm25_term_run [OF this Cons.prems(2), of q d top100 sc]
    obtain i1' top' sc' where s1: "bm25_term n avgdl q d t (i1, top100, sc) = Inr (i1', top', sc')"
      and sh1: "shapes i1' = sh"
      by blast
    have "view (i1, top100, sc) = view (i2, top100, sc)"
      using Cons.prems(3) by (simp add: view_eq)
    from bm25_term_view [OF this, of n avgdl q d t] s1
    obtain i2' where s2: "bm25_term n avgdl q d t (i2, top100, sc) = Inr (i2', top', sc')"
      and g: "getitem i1' = getitem i2'"
      by (cases "bm25_term n avgdl q d t (i2, top100, sc)") (auto simp: view_eq)
    from Cons.IH [OF q sh1 g, of top' sc'] s1 s2 c False show ?thesis by simp
  qed
qed

lemma bm25_doc_skip:
  assumes "bm25_safe n avgdl sh"
    and "\<forall>t\<in>set ts. sh t \<noteq> [] \<longrightarrow> counter_get q' t = counter_get q t"
    and "shapes i1 = sh" and "getitem i1 = getitem i2"
  shows "map_sum id view (bm25_doc n avgdl q ts d (i1, top100)) =
         map_sum id view (bm25_doc n avgdl q' (filter (\<lambda>t. sh t \<noteq> []) ts) d (i2, top100))"
  using view_results [OF bm25_terms_skip [OF assms, of d top100 0]]
  by (auto simp: bm25_doc_simp view_eq)

lemma bm25_docs_skip:
  assumes "bm25_safe n avgdl sh"
    and "\<forall>t\<in>set ts. sh t \<noteq> [] \<longrightarrow> counter_get q' t = counter_get q t"
    and "shapes i1 = sh" and "getitem i1 = getitem i2"
  shows "map_sum id view (for_each (bm25_doc n avgdl q ts) corpus (i1, top100)) =
         map_sum id view (for_each (bm25_doc n avgdl q' (filter (\<lambda>t. sh t \<noteq> []) ts)) corpus (i2, top100))"
  using assms(3,4)
proof (induction corpus arbitrary: i1 i2 top100)
  case Nil
  then show ?case by (simp add: view_eq)
next
  case (Cons d corpus)
  from bm25_doc_run [OF assms(1) Cons.prems(1), of q ts d top100]
  obtain i1' top' where s1: "bm25_doc n avgdl q ts d (i1, top100) = Inr (i1', top')"
    and sh1: "shapes i1' = sh"
    by blast
  from view_results [OF bm25_doc_skip [OF assms(1,2) Cons.prems, of d top100]] s1
  obtain i2' where s2: "bm25_doc n avgdl q' (filter (\<lambda>t. sh t \<noteq> []) ts) d (i2, top100) = Inr (i2', top')"
    and g: "getitem i1' = getitem i2'"
    by auto
  from Cons.IH [OF sh1 g, of top'] s1 s2 show ?case by simp
qed

lemma unique_fold_filter:
  "fold (\<lambda>term u. if term \<in> set u then u else u @ [term]) (filter P ks) (filter P u) =
     filter P (fold (\<lambda>term u. if term \<in> set u then u else u @ [term]) ks u)"
proof (induction ks arbitrary: u)
  case Nil
  show ?case by simp
next
  case (Cons k ks)
  show ?case
  proof (cases "P k")
    case True
    then have "(if k \<in> set (filter P u) then filter P u else filter P u @ [k]) =
        filter P (if k \<in> set u then u else u @ [k])"
      by simp
    with True Cons.IH [of "if k \<in> set u then u else u @ [k]"] show ?thesis by simp
  next
    case False
    then have "filter P (if k \<in> set u then u else u @ [k]) = filter P u"
      by simp
    with False Cons.IH [of "if k \<in> set u then u else u @ [k]"] show ?thesis by simp
  qed
qed

lemma known_terms_keys: "map fst (known_terms index q) = filter (\<lambda>t. getitem index t \<noteq> []) (map fst q)"
  by (simp add: known_terms_def filter_map comp_def)

lemma unique_terms_known:
  "unique_terms (known_terms index q) = filter (\<lambda>t. getitem index t \<noteq> []) (unique_terms q)"
  using unique_fold_filter [of "\<lambda>t. getitem index t \<noteq> []" "map fst q" "[]"]
  by (simp add: unique_terms_def known_terms_keys)

lemma map_of_filter_key:
  "map_of (filter (\<lambda>kv. P (fst kv)) xs) k = (if P k then map_of xs k else None)"
  by (induction xs) auto

lemma counter_get_known:
  "getitem index t \<noteq> [] \<Longrightarrow> counter_get (known_terms index q) t = counter_get q t"
  using map_of_filter_key [of "\<lambda>t. getitem index t \<noteq> []" q t]
  by (simp add: counter_get_def known_terms_def)

lemma bm25_ranking_known:
  assumes "corpus \<noteq> []"
    and "bm25_safe (length corpus) (real cl / real (length corpus)) (shapes index)"
  shows "\<exists>res i1 i2. bm25_ranking index q corpus cl = Inr (res, i1) \<and>
           bm25_ranking index (known_terms index q) corpus cl = Inr (res, i2)"
proof -
  let ?n = "length corpus" and ?avgdl = "real cl / real (length corpus)"
  have c: "\<forall>t\<in>set (unique_terms q). shapes index t \<noteq> [] \<longrightarrow>
      counter_get (known_terms index q) t = counter_get q t"
    by (simp add: shapes_empty_iff counter_get_known)
  from bm25_ranking_run [OF assms, of q]
  obtain i1 top100 where s1: "for_each (bm25_doc ?n ?avgdl q (unique_terms q)) corpus (index, []) = Inr (i1, top100)"
    by blast
  from view_results [OF bm25_docs_skip [OF assms(2) c refl refl, of corpus "[]"]] s1
  obtain i2 where s2: "for_each (bm25_doc ?n ?avgdl (known_terms index q)
        (filter (\<lambda>t. shapes index t \<noteq> []) (unique_terms q))) corpus (index, []) = Inr (i2, top100)"
    and g: "getitem i1 = getitem i2"
    by auto
  have "deref i1 = deref i2"
    using deref_cong [OF g] by (simp add: fun_eq_iff)
  with s1 s2 assms(1) show ?thesis
    by (simp add: bm25_ranking_def Let_def unique_terms_known shapes_empty_iff)
qed

lemma ql_posting_view:
  assumes "view s1 = view s2"
  shows "map_sum id view (ql_posting cqi cardC d t i s1) = map_sum id view (ql_posting cqi cardC d t i s2)"
proof -
  obtain i1 top100 where s1: "s1 = (i1, top100)" by (cases s1)
  obtain i2 top2 where s2: "s2 = (i2, top2)" by (cases s2)
  from assms s1 s2 have g: "getitem i1 = getitem i2" and e: "top2 = top100"
    by (simp_all add: view_eq)
  show ?thesis
    unfolding s1 s2 e ql_posting_simp deref_cong [OF g]
    by (simp add: view_eq getitem_set_score_cong [OF g] split: sum.splits)
qed

lemma ql_term_view:
  assumes "view s1 = view s2"
  shows "map_sum id view (ql_term cqi cardC d t s1) = map_sum id view (ql_term cqi cardC d t s2)"
proof -
  obtain i1 top100 where s1: "s1 = (i1, top100)" by (cases s1)
  obtain i2 top2 where s2: "s2 = (i2, top2)" by (cases s2)
  from assms s1 s2 have g: "getitem i1 = getitem i2" and e: "top2 = top100"
    by (simp_all add: view_eq)
  have "view (touch t i1, top100) = view (touch t i2, top100)"
    using g by (simp add: view_eq fun_eq_iff)
  from for_each_view [where v = view, OF ql_posting_view this]
  show ?thesis
    unfolding s1 s2 e ql_term_simp g .
qed

lemma ql_term_unknown:
  "getitem index t = [] \<Longrightarrow> ql_term cqi cardC d t (index, top100) = Inr (touch t index, top100)"
  by (simp add: ql_term_simp)

lemma ql_terms_skip:
  assumes "ql_safe cqi cardC sh" and "shapes i1 = sh" and "getitem i1 = getitem i2"
  shows "map_sum id view (for_each (ql_term cqi cardC d) ts (i1, top100)) =
         map_sum id view (for_each (ql_term cqi cardC d) (filter (\<lambda>t. sh t \<noteq> []) ts) (i2, top100))"
  using assms(2-)
proof (induction ts arbitrary: i1 i2 top100)
  case Nil
  then show ?case by (simp add: view_eq)
next
  case (Cons t ts)
  show ?case
  proof (cases "sh t = []")
    case True
    then have "getitem i1 t = []"
      using Cons.prems(1) by (metis length_0_conv length_shapes)
    then have step: "ql_term cqi cardC d t (i1, top100) = Inr (touch t i1, top100)"
      by (rule ql_term_unknown)
    have "shapes (touch t i1) = sh" "getitem (touch t i1) = getitem i2"
      using Cons.prems by (simp_all add: fun_eq_iff)
    from Cons.IH [OF this, of top100] step True show ?thesis by simp
  next
    case False
    from ql_term_run [OF assms(1) Cons.prems(1), of d t top100]
    obtain i1' top' where s1: "ql_term cqi cardC d t (i1, top100) = Inr (i1', top')"
      and sh1: "shapes i1' = sh"
      by blast
    have "view (i1, top100) = view (i2, top100)"
      using Cons.prems(2) by (simp add: view_eq)
    from view_results [OF ql_term_view [OF this, of cqi cardC d t]] s1
    obtain i2' where s2: "ql_term cqi cardC d t (i2, top100) = Inr (i2', top')"
      and g: "getitem i1' = getitem i2'"
      by auto
    from Cons.IH [OF sh1 g, of top'] s1 s2 False show ?thesis by simp
  qed
qed

lemma ql_docs_skip:
  assumes "ql_safe cqi cardC sh" and "shapes i1 = sh" and "getitem i1 = getitem i2"
  shows "map_sum id view (for_each (\<lambda>docs. for_each (ql_term cqi cardC docs) ts) corpus (i1, top100)) =
         map_sum id view (for_each (\<lambda>docs. for_each (ql_term cqi cardC docs) (filter (\<lambda>t. sh t \<noteq> []) ts))
           corpus (i2, top100))"
  using assms(2,3)
proof (induction corpus arbitrary: i1 i2 top100)
  case Nil
  then show ?case by (simp add: view_eq)
next
  case (Cons d corpus)
  from ql_terms_run [OF assms(1) Cons.prems(1), of d ts top100]
  obtain i1' top' where s1: "for_each (ql_term cqi cardC d) ts (i1, top100) = Inr (i1', top')"
    and sh1: "shapes i1' = sh"
    by blast
  from view_results [OF ql_terms_skip [OF assms(1) Cons.prems, of d ts top100]] s1
  obtain i2' where s2: "for_each (ql_term cqi cardC d) (filter (\<lambda>t. sh t \<noteq> []) ts) (i2, top100) = Inr (i2', top')"
    and g: "getitem i1' = getitem i2'"
    by auto
  from Cons.IH [OF sh1 g, of top'] s1 s2 show ?case by simp
qed

lemma ql_ranking_known:
  assumes "ql_safe cqi cl (shapes index)"
  shows "\<exists>res i1 i2. ql_ranking index q corpus cl cqi = Inr (res, i1) \<and>
           ql_ranking index (known_terms index q) corpus cl cqi = Inr (res, i2)"
proof -
  from ql_docs_run [OF assms refl, of "map fst q" corpus "[]"]
  obtain i1 top100 where s1: "for_each (\<lambda>docs. for_each (ql_term cqi cl docs) (map fst q)) corpus (index, []) =
       Inr (i1, top100)"
    by blast
  from view_results [OF ql_docs_skip [OF assms refl refl, of "map fst q" corpus "[]"]] s1
  obtain i2 where s2: "for_each (\<lambda>docs. for_each (ql_term cqi cl docs)
        (filter (\<lambda>t. shapes index t \<noteq> []) (map fst q))) corpus (index, []) = Inr (i2, top100)"
    and g: "getitem i1 = getitem i2"
    by auto
  have "deref i1 = deref i2"
    using deref_cong [OF g] by (simp add: fun_eq_iff)
  with s1 s2 show ?thesis
    by (simp add: ql_ranking_def Let_def known_terms_keys shapes_empty_iff)
qed

lemma known_cat: "known_terms cat_index (Counter [''cat'', ''zebra'']) = Counter [''cat'']"
  by (simp add: known_terms_def Counter_cat_zebra Counter_cat cat_index_def getitem_def)

text \<open>
  C9, as amended. For every corpus and its built index, and every query, \<^verbatim>\<open>ql_ranking\<close>
  returns a result, and so does \<^verbatim>\<open>bm25_ranking\<close> when the corpus is not empty; no exception
  is raised. A query term that occurs nowhere in the corpus contributes nothing: the
  result is the result of the query without these terms.
\<close>

theorem unknown_terms_neutral:
  assumes "build_index corpus = (index, corpus', cl, cqi)"
  shows "(corpus \<noteq> [] \<longrightarrow>
            (\<exists>res i1 i2. bm25_ranking index q corpus cl = Inr (res, i1) \<and>
               bm25_ranking index (known_terms index q) corpus cl = Inr (res, i2))) \<and>
         (\<exists>res i1 i2. ql_ranking index q corpus cl cqi = Inr (res, i1) \<and>
               ql_ranking index (known_terms index q) corpus cl cqi = Inr (res, i2))"
  using bm25_ranking_known [OF _ built_bm25_safe [OF assms], of q]
    ql_ranking_known [OF built_ql_safe [OF assms], of q corpus]
  by blast

theorem unknown_terms_neutral_witness:
  "build_index cat_corpus = (cat_index, cat_corpus, 6, cat_cqi) \<and> cat_corpus \<noteq> [] \<and>
   known_terms cat_index (Counter [''cat'', ''zebra'']) = Counter [''cat''] \<and>
   (\<exists>res i1 i2. bm25_ranking cat_index (Counter [''cat'', ''zebra'']) cat_corpus 6 = Inr (res, i1) \<and>
      bm25_ranking cat_index (Counter [''cat'']) cat_corpus 6 = Inr (res, i2)) \<and>
   (\<exists>res i1 i2. ql_ranking cat_index (Counter [''cat'', ''zebra'']) cat_corpus 6 cat_cqi = Inr (res, i1) \<and>
      ql_ranking cat_index (Counter [''cat'']) cat_corpus 6 cat_cqi = Inr (res, i2))"
proof -
  from unknown_terms_neutral [OF cat_built, of "Counter [''cat'', ''zebra'']"] cat_ne
  have "(\<exists>res i1 i2. bm25_ranking cat_index (Counter [''cat'', ''zebra'']) cat_corpus 6 = Inr (res, i1) \<and>
      bm25_ranking cat_index (Counter [''cat'']) cat_corpus 6 = Inr (res, i2)) \<and>
   (\<exists>res i1 i2. ql_ranking cat_index (Counter [''cat'', ''zebra'']) cat_corpus 6 cat_cqi = Inr (res, i1) \<and>
      ql_ranking cat_index (Counter [''cat'']) cat_corpus 6 cat_cqi = Inr (res, i2))"
    unfolding known_cat by (elim conjE impE) (assumption, intro conjI)
  with cat_built cat_ne known_cat show ?thesis
    by (intro conjI) (elim conjE, assumption)+
qed

text \<open>
  C9 as stated fails on the empty corpus, where every query term is unknown:
  \<^verbatim>\<open>bm25_ranking\<close> raises \<^verbatim>\<open>ZeroDivisionError\<close> when it divides by \<^verbatim>\<open>len(corpus)\<close>.
\<close>

theorem bm25_empty_corpus_fails:
  "build_index [] = ([], [], 0, []) \<and>
   bm25_ranking [] (Counter [''x'']) [] 0 = Inl ZeroDivisionError \<and>
   ql_ranking [] (Counter [''x'']) [] 0 [] = Inr ([], [])"
  by (simp add: build_index_def bm25_ranking_def ql_ranking_def top_k_def)

text \<open>
  C10, as amended. For every non-empty corpus and its built index, and every query with
  a term that is not a key of the index, both \<^verbatim>\<open>bm25_ranking\<close> and \<^verbatim>\<open>ql_ranking\<close> return,
  and the index they leave behind maps that term to the empty list.
\<close>

theorem unknown_term_inserted:
  assumes "build_index corpus = (index, corpus', cl, cqi)" and "corpus \<noteq> []"
    and "t \<in> fst ` set q" and "t \<notin> fst ` set index"
  shows "(\<exists>res index'. bm25_ranking index q corpus cl = Inr (res, index') \<and> map_of index' t = Some []) \<and>
         (\<exists>res index'. ql_ranking index q corpus cl cqi = Inr (res, index') \<and> map_of index' t = Some [])"
proof
  from bm25_ranking_run [OF assms(2) built_bm25_safe [OF assms(1)], of q]
  obtain index' where r: "bm25_ranking index q corpus cl =
           Inr (top_k (map (deref index') (bm25_refs (shapes index) (unique_terms q) corpus)), index')"
    and sh: "shapes index' = shapes index"
    and k: "fst ` set index' = fst ` set index \<union> set (unique_terms q)"
    by blast
  have "t \<in> fst ` set index'"
    using k assms(3) by (simp add: unique_terms_set)
  from r inserted_empty [OF assms(4) sh this]
  show "\<exists>res index'. bm25_ranking index q corpus cl = Inr (res, index') \<and> map_of index' t = Some []"
    by blast
next
  from ql_ranking_run [OF built_ql_safe [OF assms(1)], of q corpus]
  obtain index' where r: "ql_ranking index q corpus cl cqi =
           Inr (top_k (map (deref index') (ql_refs (shapes index) (map fst q) corpus)), index')"
    and sh: "shapes index' = shapes index"
    and k: "fst ` set index' = fst ` set index \<union> (if corpus = [] then {} else fst ` set q)"
    by blast
  have "t \<in> fst ` set index'"
    using k assms(2,3) by simp
  from r inserted_empty [OF assms(4) sh this]
  show "\<exists>res index'. ql_ranking index q corpus cl cqi = Inr (res, index') \<and> map_of index' t = Some []"
    by blast
qed

theorem unknown_term_inserted_witness:
  "build_index cat_corpus = (cat_index, cat_corpus, 6, cat_cqi) \<and> cat_corpus \<noteq> [] \<and>
   ''zebra'' \<in> fst ` set (Counter [''cat'', ''zebra'']) \<and> ''zebra'' \<notin> fst ` set cat_index \<and>
   (\<exists>res index'. bm25_ranking cat_index (Counter [''cat'', ''zebra'']) cat_corpus 6 = Inr (res, index') \<and>
      map_of index' ''zebra'' = Some []) \<and>
   (\<exists>res index'. ql_ranking cat_index (Counter [''cat'', ''zebra'']) cat_corpus 6 cat_cqi = Inr (res, index') \<and>
      map_of index' ''zebra'' = Some [])"
proof -
  have q: "''zebra'' \<in> fst ` set (Counter [''cat'', ''zebra''])"
    by (simp add: Counter_cat_zebra)
  have k: "''zebra'' \<notin> fst ` set cat_index"
    by (simp add: cat_index_def)
  from unknown_term_inserted [OF cat_built cat_ne q k] cat_built cat_ne q k
  show ?thesis by (intro conjI) (elim conjE, assumption)+
qed

text \<open>
  C10 as stated fails on the empty corpus: the lookup \<^verbatim>\<open>index[term]\<close> stands inside the
  loop over the corpus, so \<^verbatim>\<open>ql_ranking\<close> returns with the index unchanged, and
  \<^verbatim>\<open>bm25_ranking\<close> raises before it.
\<close>

theorem empty_corpus_no_insertion:
  "build_index [] = ([], [], 0, []) \<and> ''x'' \<in> fst ` set (Counter [''x'']) \<and> ''x'' \<notin> fst ` set ([] :: index) \<and>
   bm25_ranking [] (Counter [''x'']) [] 0 = Inl ZeroDivisionError \<and>
   ql_ranking [] (Counter [''x'']) [] 0 [] = Inr ([], []) \<and>
   map_of ([] :: index) ''x'' = None"
  by (simp add: build_index_def bm25_ranking_def ql_ranking_def top_k_def Counter_def counter_get_def)

section \<open>The scores left in the index by \<^verbatim>\<open>bm25_ranking\<close>\<close>

text \<open>
  \<^verbatim>\<open>bm25_ranking\<close> assigns the \<^verbatim>\<open>score\<close> attribute of every posting it returns from a local
  variable that starts at 0 for every document. Its result does not depend on the scores
  that the index holds when it is called, so the same query scored twice in succession
  yields the same result.
\<close>

lemma for_each_rel:
  assumes "\<And>x s1 s2. x \<in> set xs \<Longrightarrow> R s1 s2 \<Longrightarrow> rel_sum (=) R (body x s1) (body x s2)"
  shows "R s1 s2 \<Longrightarrow> rel_sum (=) R (for_each body xs s1) (for_each body xs s2)"
  using assms
proof (induction xs arbitrary: s1 s2)
  case Nil
  then show ?case by simp
next
  case (Cons x xs)
  have step: "rel_sum (=) R (body x s1) (body x s2)"
    using Cons.prems by simp
  show ?case
  proof (cases "body x s1")
    case (Inl e)
    with step have "body x s2 = Inl e"
      by (cases "body x s2") simp_all
    with Inl show ?thesis by simp
  next
    case (Inr s1')
    with step obtain s2' where s2: "body x s2 = Inr s2'" "R s1' s2'"
      by (cases "body x s2") simp_all
    have "rel_sum (=) R (for_each body xs s1') (for_each body xs s2')"
      using Cons.IH [OF s2(2)] Cons.prems(2) by simp
    with Inr s2(1) show ?thesis by simp
  qed
qed

lemma deref_set_score:
  "deref (set_score (t, i) s index) (u, j) =
     (if u = t \<and> j = i \<and> i < length (getitem index t) then (deref index (t, i))\<lparr>score := s\<rparr>
      else deref index (u, j))"
  by (cases "i < length (getitem index t)")
     (auto simp: deref_def getitem_set_score nth_list_update list_update_beyond)

lemma deref_touch [simp]: "deref (touch t index) r = deref index r"
  by (simp add: deref_def)

lemma score_update_shape: "shape p = shape q \<Longrightarrow> p\<lparr>score := s\<rparr> = q\<lparr>score := s\<rparr>"
  by (cases p; cases q) (simp add: shape_def)

lemma agree_set_score:
  assumes "agree sh i1 i2 top100" and "i < length (sh t)"
  shows "agree sh (set_score (t, i) s i1) (set_score (t, i) s i2) (top100 @ [(t, i)])"
proof -
  from assms(1) have sh: "shapes i1 = sh" "shapes i2 = sh"
    and eq: "\<forall>r\<in>set top100. deref i1 r = deref i2 r"
    by (simp_all add: agree_def list_all_iff)
  have len: "i < length (getitem i1 t)" "i < length (getitem i2 t)"
    using assms(2) sh by (metis length_shapes)+
  have new: "(deref i1 (t, i))\<lparr>score := s\<rparr> = (deref i2 (t, i))\<lparr>score := s\<rparr>"
    using deref_shape [OF len(1)] deref_shape [OF len(2)] sh by (intro score_update_shape) simp
  have "deref (set_score (t, i) s i1) r = deref (set_score (t, i) s i2) r"
    if "r \<in> set top100 \<or> r = (t, i)" for r
    using that eq new len by (cases r) (auto simp: deref_set_score)
  then show ?thesis
    using sh by (simp add: agree_def list_all_iff)
qed

lemma bm25_posting_agree:
  assumes "i < length (sh t)" and "agree3 sh s1 s2"
  shows "rel_sum (=) (agree3 sh) (bm25_posting n avgdl ni qfi d t i s1) (bm25_posting n avgdl ni qfi d t i s2)"
proof -
  obtain i1 top100 sc where s1: "s1 = (i1, top100, sc)" by (cases s1)
  obtain i2 top2 sc2 where s2: "s2 = (i2, top2, sc2)" by (cases s2)
  from assms(2) s1 s2 have a: "agree sh i1 i2 top100" and e: "top2 = top100" "sc2 = sc"
    by (auto simp: agree3_def)
  from a have sh: "shapes i1 = sh" "shapes i2 = sh"
    by (simp_all add: agree_def)
  have len: "i < length (getitem i1 t)" "i < length (getitem i2 t)"
    using assms(1) sh by (metis length_shapes)+
  note f1 = deref_fields [OF len(1), unfolded sh] and f2 = deref_fields [OF len(2), unfolded sh]
  show ?thesis
    unfolding s1 s2 e bm25_posting_simp f1 f2
    using a agree_set_score [OF a assms(1)] by (simp add: agree3_def)
qed

lemma bm25_term_agree:
  assumes "agree3 sh s1 s2"
  shows "rel_sum (=) (agree3 sh) (bm25_term n avgdl q d t s1) (bm25_term n avgdl q d t s2)"
proof -
  obtain i1 top100 sc where s1: "s1 = (i1, top100, sc)" by (cases s1)
  obtain i2 top2 sc2 where s2: "s2 = (i2, top2, sc2)" by (cases s2)
  from assms s1 s2 have a: "agree sh i1 i2 top100" and e: "top2 = top100" "sc2 = sc"
    by (auto simp: agree3_def)
  from a have sh: "shapes i1 = sh" "shapes i2 = sh"
    by (simp_all add: agree_def)
  have len: "length (getitem i1 t) = length (sh t)" "length (getitem i2 t) = length (sh t)"
    using sh by (metis length_shapes)+
  have "agree3 sh (touch t i1, top100, sc) (touch t i2, top100, sc)"
    using a by (simp add: agree3_def agree_def)
  then have "rel_sum (=) (agree3 sh)
      (for_each (bm25_posting n avgdl (length (sh t)) (counter_get q t) d t) [0..<length (sh t)]
         (touch t i1, top100, sc))
      (for_each (bm25_posting n avgdl (length (sh t)) (counter_get q t) d t) [0..<length (sh t)]
         (touch t i2, top100, sc))"
    by (rule for_each_rel [rotated]) (simp add: bm25_posting_agree)
  then show ?thesis
    unfolding s1 s2 e bm25_term_simp len .
qed

lemma bm25_doc_agree:
  assumes "agree2 sh s1 s2"
  shows "rel_sum (=) (agree2 sh) (bm25_doc n avgdl q ts d s1) (bm25_doc n avgdl q ts d s2)"
proof -
  obtain i1 top100 where s1: "s1 = (i1, top100)" by (cases s1)
  obtain i2 top2 where s2: "s2 = (i2, top2)" by (cases s2)
  from assms s1 s2 have a: "agree sh i1 i2 top100" and e: "top2 = top100"
    by (auto simp: agree2_def)
  have "agree3 sh (i1, top100, 0) (i2, top100, 0)"
    using a by (simp add: agree3_def)
  then have "rel_sum (=) (agree3 sh)
      (for_each (bm25_term n avgdl q d) ts (i1, top100, 0))
      (for_each (bm25_term n avgdl q d) ts (i2, top100, 0))"
    by (rule for_each_rel [rotated]) (rule bm25_term_agree)
  then show ?thesis
    unfolding s1 s2 e bm25_doc_simp
    by (cases "for_each (bm25_term n avgdl q d) ts (i1, top100, 0)";
        cases "for_each (bm25_term n avgdl q d) ts (i2, top100, 0)")
       (auto simp: agree3_def agree2_def)
qed

lemma bm25_ranking_scores_aside:
  assumes "shapes i1 = shapes i2"
  shows "map_sum id fst (bm25_ranking i1 q corpus cl) = map_sum id fst (bm25_ranking i2 q corpus cl)"
proof (cases "corpus = []")
  case True
  then show ?thesis by (simp add: bm25_ranking_def)
next
  case False
  let ?n = "length corpus" and ?avgdl = "real cl / real (length corpus)"
  have "agree2 (shapes i2) (i1, []) (i2, [])"
    using assms by (simp add: agree2_def agree_def)
  then have r: "rel_sum (=) (agree2 (shapes i2))
      (for_each (bm25_doc ?n ?avgdl q (unique_terms q)) corpus (i1, []))
      (for_each (bm25_doc ?n ?avgdl q (unique_terms q)) corpus (i2, []))"
    by (rule for_each_rel [rotated]) (rule bm25_doc_agree)
  show ?thesis
  proof (cases "for_each (bm25_doc ?n ?avgdl q (unique_terms q)) corpus (i1, [])")
    case (Inl e)
    with r have "for_each (bm25_doc ?n ?avgdl q (unique_terms q)) corpus (i2, []) = Inl e"
      by (cases "for_each (bm25_doc ?n ?avgdl q (unique_terms q)) corpus (i2, [])") simp_all
    with Inl False show ?thesis by (simp add: bm25_ranking_def Let_def)
  next
    case (Inr s1)
    with r obtain s2 where s2: "for_each (bm25_doc ?n ?avgdl q (unique_terms q)) corpus (i2, []) = Inr s2"
      and a: "agree2 (shapes i2) s1 s2"
      by (cases "for_each (bm25_doc ?n ?avgdl q (unique_terms q)) corpus (i2, [])") simp_all
    obtain i1' top1 where s1': "s1 = (i1', top1)" by (cases s1)
    obtain i2' top2 where s2': "s2 = (i2', top2)" by (cases s2)
    from a s1' s2' have "top2 = top1" "map (deref i1') top1 = map (deref i2') top1"
      by (simp_all add: agree2_def agree_def list_all_iff)
    with Inr s2 s1' s2' False show ?thesis by (simp add: bm25_ranking_def Let_def del: map_eq_conv)
  qed
qed

lemma bm25_ranking_repeatable:
  assumes "build_index corpus = (index, corpus', cl, cqi)" and "corpus \<noteq> []"
  shows "\<exists>res index1 index2. bm25_ranking index q corpus cl = Inr (res, index1) \<and>
           bm25_ranking index1 q corpus cl = Inr (res, index2)"
proof -
  from bm25_ranking_run [OF assms(2) built_bm25_safe [OF assms(1)], of q]
  obtain res index1 where r: "bm25_ranking index q corpus cl = Inr (res, index1)"
    and sh: "shapes index1 = shapes index"
    by blast
  from bm25_ranking_scores_aside [OF sh, of q corpus cl] r
  obtain index2 where "bm25_ranking index1 q corpus cl = Inr (res, index2)"
    by (cases "bm25_ranking index1 q corpus cl") auto
  with r show ?thesis by blast
qed

section \<open>Where the scorers depart from the specification\<close>

text \<open>
  C1. The claim says that \<^verbatim>\<open>ql_ranking\<close> adds one contribution per query term and document
  and returns every document of the corpus exactly once. On the corpus of the two
  documents \<open>d1 = "a"\<close> and \<open>d2 = "b"\<close> and the query \<open>a\<close>, the code returns the posting of
  \<open>d1\<close> twice and no entry for \<open>d2\<close>; the score of the posting is the sum of the
  contribution of \<open>d1\<close> and of a second contribution with \<open>fqi = 0\<close>, added while the loop
  was at \<open>d2\<close>.
\<close>

theorem ql_ranking_two_documents:
  "build_index two_corpus = (two_index 0, two_corpus, 2, [(''a'', 1), (''b'', 1)]) \<and>
   ql_ranking (two_index 0) (Counter [''a'']) two_corpus 2 [(''a'', 1), (''b'', 1)] =
     Inr ([\<lparr>doc_id = ''d1'', positions = [0], termCount = 1, docLen = 1,
             score = ln (151 / 301) + ln (150 / 301), N = 2\<rparr>,
           \<lparr>doc_id = ''d1'', positions = [0], termCount = 1, docLen = 1,
             score = ln (151 / 301) + ln (150 / 301), N = 2\<rparr>],
          two_index (ln (151 / 301) + ln (150 / 301)))"
  by (simp add: two_built Counter_a) (simp add: two_corpus_def two_index_def run_defs Let_def)

text \<open>
  C2. The claim says that the same query scored twice against the same index yields the
  same scores. \<^verbatim>\<open>ql_ranking\<close> adds to the \<^verbatim>\<open>score\<close> attribute that the first call left in
  the index: on the corpus of the one document \<open>"a b"\<close> and the query \<open>a\<close>, the first call
  returns the score \<open>ln (1 / 2)\<close> and the second call, on the index the first one left,
  twice that. (For \<^verbatim>\<open>bm25_ranking\<close> the claim holds, see \<open>bm25_ranking_repeatable\<close>.)
\<close>

theorem ql_ranking_accumulates:
  "build_index ab_corpus = (ab_index 0 0, ab_corpus, 2, [(''a'', 1), (''b'', 1)]) \<and>
   ql_ranking (ab_index 0 0) (Counter [''a'']) ab_corpus 2 [(''a'', 1), (''b'', 1)] =
     Inr ([\<lparr>doc_id = ''d'', positions = [0], termCount = 1, docLen = 2, score = ln (1 / 2), N = 1\<rparr>],
          ab_index (ln (1 / 2)) 0) \<and>
   ql_ranking (ab_index (ln (1 / 2)) 0) (Counter [''a'']) ab_corpus 2 [(''a'', 1), (''b'', 1)] =
     Inr ([\<lparr>doc_id = ''d'', positions = [0], termCount = 1, docLen = 2, score = 2 * ln (1 / 2), N = 1\<rparr>],
          ab_index (2 * ln (1 / 2)) 0) \<and>
   ln (1 / 2) \<noteq> 2 * ln (1 / (2 :: real))"
  by (simp add: ab_built Counter_a) (simp add: ab_corpus_def ab_index_def run_defs)

text \<open>
  C4. The claim says that the score of every scored document is the sum of the
  contributions of the query terms it contains. \<^verbatim>\<open>bm25_ranking\<close> appends a posting for every
  query term of a document, with the sum so far as its score: on the corpus of the one
  document \<open>"a b"\<close> and the query \<open>a b\<close>, where each term contributes \<open>ln (1 / 3)\<close>, it
  returns two entries for the document, the first with the score \<open>ln (1 / 3)\<close> of the
  term \<open>a\<close> alone.
\<close>

theorem bm25_ranking_partial_entries:
  "build_index ab_corpus = (ab_index 0 0, ab_corpus, 2, [(''a'', 1), (''b'', 1)]) \<and>
   bm25_ranking (ab_index 0 0) (Counter [''a'', ''b'']) ab_corpus 2 =
     Inr ([\<lparr>doc_id = ''d'', positions = [0], termCount = 1, docLen = 2, score = ln (1 / 3), N = 1\<rparr>,
           \<lparr>doc_id = ''d'', positions = [1], termCount = 1, docLen = 2, score = ln (1 / 3) + ln (1 / 3), N = 1\<rparr>],
          ab_index (ln (1 / 3)) (ln (1 / 3) + ln (1 / 3)))"
  by (simp add: ab_built Counter_ab)
    (simp add: ab_corpus_def ab_index_def run_defs Let_def bm25_weight_def k1_def k2_def b_def)

end
